theory Spec2Isabelle
  imports Main "HOL-Library.Word" "HOL-Library.Signed_Division" "HOL-Library.Sublist"
begin

unbundle bit_operations_syntax

section \<open>The LZSS codec of lzss.c\<close>

text \<open>
  The development embeds the encoder \<open>EncodeLZSS\<close> and the decoder \<open>DecodeLZSS\<close> of
  \<^verbatim>\<open>src/lzss.c\<close>. A file is the list of its bytes; \<open>putc\<close> appends to the output list,
  \<open>getc\<close> takes the head of the input list and \<open>EOF\<close> is the empty list.
  Bytes (\<open>unsigned char\<close>) are 8-bit words. In the encoder, positions, sizes, lengths and
  distances (\<open>int\<close> and \<open>long\<close> in the source, never negative there) are natural numbers;
  the input is taken to fit these types. In the decoder the \<open>int\<close> variables are integers,
  \<open>%\<close> is the truncating \<open>smod\<close>, and every array access is checked against the declared
  size of the array. Failures of \<open>malloc\<close> and of file input and output are not modelled,
  nor are \<open>main\<close> and \<open>FindMatch\<close>, which the encoder never calls.
\<close>

type_synonym byte = "8 word"

subsection \<open>Constants\<close>

definition WINDOW_SIZE :: nat where
  "WINDOW_SIZE = 1023"

definition MAX_UNCODED :: nat where
  "MAX_UNCODED = 2"

definition MAX_CODED :: nat where
  "MAX_CODED = 61 + MAX_UNCODED + 1"

definition MAX_LENGTH :: nat where
  "MAX_LENGTH = 63"

subsection \<open>Wire layout of a match (lines 478-479 and 651-652)\<close>

text \<open>
  The two bytes the encoder stores for a match: the casts to \<open>unsigned char\<close> keep the low
  eight bits.
\<close>

definition packMatch :: "nat \<Rightarrow> nat \<Rightarrow> byte list" where
  "packMatch bestOffset bestLength =
     [of_nat (drop_bit 8 bestOffset OR push_bit 2 bestLength),
      of_nat (bestOffset AND 0xFF)]"

text \<open>
  The decoder reads \<open>code.length\<close> and then \<open>code.offset\<close> with \<open>getc\<close> and unpacks them.
\<close>

definition unpackOffset :: "byte \<Rightarrow> byte \<Rightarrow> int" where
  "unpackOffset len_byte off_byte = uint off_byte + push_bit 8 (uint len_byte AND 0x03)"

definition unpackLength :: "byte \<Rightarrow> int" where
  "unpackLength len_byte = drop_bit 2 (uint len_byte)"

subsection \<open>The match search of the encoder (lines 405-470)\<close>

text \<open>
  The loop that counts matching bytes (lines 441-447). It is entered with
  \<open>maxCheck \<le> remaining\<close>, so both indices stay below the size of the input.
\<close>

function countMatch :: "byte list \<Rightarrow> nat \<Rightarrow> nat \<Rightarrow> nat \<Rightarrow> nat \<Rightarrow> nat" where
  "countMatch inputData current candidate maxCheck matchLen =
     (if matchLen < maxCheck then
        (if inputData ! (current + matchLen) \<noteq> inputData ! (candidate + matchLen)
         then matchLen
         else countMatch inputData current candidate maxCheck (matchLen + 1))
      else matchLen)"
  by pat_completeness auto
termination
  by (relation "measure (\<lambda>(d, c, k, m, l). m - l)") auto

text \<open>
  The scan over the candidate distances (lines 417-463). \<open>current\<close> is the index
  \<open>inputPos\<close>, \<open>candidate\<close> is \<open>inputPos - searchOffset\<close>; the scan is only entered with
  \<open>searchOffset \<le> searchLimit \<le> inputPos\<close>, so the subtraction is exact.
\<close>

function searchLoop ::
  "byte list \<Rightarrow> nat \<Rightarrow> nat \<Rightarrow> nat \<Rightarrow> nat \<times> nat \<Rightarrow> nat \<times> nat" where
  "searchLoop inputData inputPos searchLimit searchOffset (bestLength, bestOffset) =
     (if searchOffset \<le> searchLimit then
        (let remaining = length inputData - inputPos;
             current = inputPos;
             candidate = inputPos - searchOffset
         in if inputData ! current \<noteq> inputData ! candidate
            then searchLoop inputData inputPos searchLimit (searchOffset + 1)
                   (bestLength, bestOffset)
            else if bestLength < remaining \<and>
                    inputData ! (current + bestLength) \<noteq> inputData ! (candidate + bestLength)
            then searchLoop inputData inputPos searchLimit (searchOffset + 1)
                   (bestLength, bestOffset)
            else
              (let maxCheck = (if remaining < searchOffset then remaining else searchOffset);
                   matchLen = countMatch inputData current candidate maxCheck 0;
                   best = (if matchLen > bestLength then (matchLen, searchOffset)
                           else (bestLength, bestOffset))
               in if matchLen > MAX_LENGTH then (MAX_LENGTH, searchOffset)
                  else searchLoop inputData inputPos searchLimit (searchOffset + 1) best))
      else (bestLength, bestOffset))"
  by pat_completeness auto
termination
  by (relation "measure (\<lambda>(d, p, lim, off, b). Suc lim - off)") auto

text \<open>
  Lines 405-470: the search limit, the scan from distance 3 and the final cap of the
  length. The result is the pair \<open>(bestLength, bestOffset)\<close>.
\<close>

definition findBest :: "byte list \<Rightarrow> nat \<Rightarrow> nat \<times> nat" where
  "findBest inputData inputPos =
     (let searchLimit = (if inputPos \<le> WINDOW_SIZE then inputPos else WINDOW_SIZE);
          (bestLength, bestOffset) =
             (if searchLimit \<ge> 3 then searchLoop inputData inputPos searchLimit 3 (2, 0)
              else (2, 0))
      in (if bestLength > MAX_LENGTH then MAX_LENGTH else bestLength, bestOffset))"

subsection \<open>The encoder (lines 362-565)\<close>

text \<open>
  The encoder's variables. \<open>encodedData\<close> is the filled part of the array of that name
  and \<open>nextEncoded\<close> is its length.
\<close>

record enc_state =
  eflags :: byte
  flagPos :: byte
  encodedData :: "byte list"
  compressedSize :: nat
  eout :: "byte list"

text \<open>\<open>putc\<close> of each byte of a list to \<open>outFile\<close>, each followed by \<open>compressedSize++\<close>.\<close>

definition putBytes :: "byte list \<Rightarrow> enc_state \<Rightarrow> enc_state" where
  "putBytes bs s = s\<lparr>compressedSize := compressedSize s + length bs, eout := eout s @ bs\<rparr>"

text \<open>Lines 490-509: a full group of eight decisions is written, else the flag bit moves.\<close>

definition endToken :: "enc_state \<Rightarrow> enc_state" where
  "endToken s =
     (if flagPos s = 0x01
      then (putBytes (eflags s # encodedData s) s)\<lparr>eflags := 0, flagPos := 0x80, encodedData := []\<rparr>
      else s\<lparr>flagPos := drop_bit 1 (flagPos s)\<rparr>)"

text \<open>The main loop (lines 402-510).\<close>

function encodeLoop :: "byte list \<Rightarrow> nat \<Rightarrow> enc_state \<Rightarrow> enc_state" where
  "encodeLoop inputData inputPos s =
     (if inputPos < length inputData then
        (let best = findBest inputData inputPos;
             bestLength = fst best;
             bestOffset = snd best
         in if bestLength \<ge> 3 \<and> bestOffset \<ge> 3
            then encodeLoop inputData (inputPos + bestLength)
                   (endToken (s\<lparr>eflags := eflags s OR flagPos s,
                                 encodedData := encodedData s @ packMatch bestOffset bestLength\<rparr>))
            else encodeLoop inputData (inputPos + 1)
                   (endToken (s\<lparr>encodedData := encodedData s @ [inputData ! inputPos]\<rparr>)))
      else s)"
  by pat_completeness auto
termination
  by (relation "measure (\<lambda>(d, p, s). length d - p)") auto

text \<open>
  The loop of lines 522-531 that fills the last group with zero matches in exact mode.
  The local \<open>remainder\<close> it decrements is never read and is left out.
\<close>

function exactPadLoop :: "enc_state \<Rightarrow> enc_state" where
  "exactPadLoop s =
     (if (compressedSize s + length (encodedData s) + 1) mod 16 \<noteq> 0 then
        (if flagPos s = 0x00 then s
         else exactPadLoop (s\<lparr>eflags := eflags s OR flagPos s,
                               flagPos := drop_bit 1 (flagPos s),
                               encodedData := encodedData s @ [0, 0]\<rparr>))
      else s)"
  by pat_completeness auto
termination
proof (relation "measure (\<lambda>s. unat (flagPos s))")
  show "wf (measure (\<lambda>s. unat (flagPos s)))" by simp
next
  fix s :: enc_state
  assume "flagPos s \<noteq> 0x00"
  then have "unat (drop_bit 1 (flagPos s)) < unat (flagPos s)"
    by (simp add: drop_bit_eq_div unat_div unat_eq_0 flip: unat_gt_0)
  then show "(s\<lparr>eflags := eflags s OR flagPos s, flagPos := drop_bit 1 (flagPos s),
                encodedData := encodedData s @ [0, 0]\<rparr>, s) \<in> measure (\<lambda>s. unat (flagPos s))"
    by simp
qed

text \<open>Lines 513-540: the last, partial group.\<close>

definition flushRemaining :: "bool \<Rightarrow> enc_state \<Rightarrow> enc_state" where
  "flushRemaining exactPad s =
     (let totalSize = compressedSize s + length (encodedData s) + 1;
          s1 = (if exactPad \<and> totalSize mod 16 \<noteq> 0 then exactPadLoop s else s)
      in putBytes (eflags s1 # encodedData s1) s1)"

text \<open>Lines 545-554: the padding blocks of exact mode.\<close>

definition padding_lengths :: "nat list" where
  "padding_lengths =
     [0x0, 0x1, 0x12, 0x3, 0x14, 0x5, 0x16, 0x7, 0x18, 0x9, 0x1A, 0xB, 0x1C, 0xD, 0x1E, 0xF, 0x0]"

definition padding_block :: "byte list" where
  "padding_block = [0xFF, 0x0, 0x0, 0x0, 0x0, 0x0, 0x0, 0x0, 0x0, 0x0, 0x0, 0x0, 0x0, 0x0, 0x0, 0x0, 0x0]"

definition exactPadBlocks :: "enc_state \<Rightarrow> enc_state" where
  "exactPadBlocks s =
     (let remainder = 16 - (compressedSize s mod 16);
          remainder = padding_lengths ! remainder
      in putBytes (map (\<lambda>i. padding_block ! (i mod 0x11)) [0..<remainder]) s)"

text \<open>Lines 557-561: plain padding with zero bytes.\<close>

function plainPad :: "enc_state \<Rightarrow> enc_state" where
  "plainPad s =
     (if compressedSize s mod 0x10 \<noteq> 0 then plainPad (putBytes [0x00] s) else s)"
  by pat_completeness auto
termination
proof (relation "measure (\<lambda>s. (16 - compressedSize s mod 16) mod 16)")
  show "wf (measure (\<lambda>s. (16 - compressedSize s mod 16) mod 16))" by simp
next
  fix s :: enc_state
  assume "compressedSize s mod 0x10 \<noteq> 0"
  moreover have "compressedSize s mod 16 < 16"
    by simp
  ultimately have
    "(16 - Suc (compressedSize s) mod 16) mod 16 < (16 - compressedSize s mod 16) mod 16"
    by (simp add: mod_Suc) linarith
  then show "(putBytes [0x00] s, s) \<in> measure (\<lambda>s. (16 - compressedSize s mod 16) mod 16)"
    by (simp add: putBytes_def)
qed

text \<open>
  Lines 512-562, after the main loop: the last group when there is one, then the blocks
  of exact mode, then plain padding unless it is suppressed.
\<close>

definition finishOutput :: "bool \<Rightarrow> bool \<Rightarrow> enc_state \<Rightarrow> enc_state" where
  "finishOutput dontPad exactPad s1 =
     (let s2 = (if length (encodedData s1) \<noteq> 0 then flushRemaining exactPad s1 else s1);
          s3 = (if exactPad then exactPadBlocks s2 else s2);
          s4 = (if \<not> dontPad then plainPad s3 else s3)
      in s4)"

text \<open>
  \<open>EncodeLZSS\<close>: the whole input is in memory; nothing at all is written for an empty
  input (lines 377-380). \<open>dontPad\<close> and \<open>exactPad\<close> are the two flags that \<open>main\<close> sets
  to 0 or 1.
\<close>

definition EncodeLZSS :: "byte list \<Rightarrow> bool \<Rightarrow> bool \<Rightarrow> byte list" where
  "EncodeLZSS inputData dontPad exactPad =
     (if length inputData \<le> 0 then []
      else
        (let s0 = \<lparr>eflags = 0, flagPos = 0x80, encodedData = [], compressedSize = 0, eout = []\<rparr>;
             s1 = encodeLoop inputData 0 s0
         in eout (finishOutput dontPad exactPad s1)))"

subsection \<open>The decoder (lines 583-683)\<close>

text \<open>
  An array access outside the declared size is undefined in C; in the model it makes the
  decoder return \<open>None\<close>.
\<close>

definition array_get :: "'a list \<Rightarrow> int \<Rightarrow> 'a option" where
  "array_get a i = (if 0 \<le> i \<and> i < int (length a) then Some (a ! nat i) else None)"

definition array_set :: "'a list \<Rightarrow> int \<Rightarrow> 'a \<Rightarrow> 'a list option" where
  "array_set a i v = (if 0 \<le> i \<and> i < int (length a) then Some (a[nat i := v]) else None)"

record dec_state =
  dflags :: byte
  flagsUsed :: byte
  nextChar :: int
  slidingWindow :: "byte list"
  uncodedLookahead :: "byte list"
  dout :: "byte list"

text \<open>
  Lines 607-620: the flag byte is shifted, and a new one is read after eight decisions.
  \<open>None\<close> is the \<open>break\<close> at \<open>EOF\<close>.
\<close>

definition nextFlag :: "dec_state \<Rightarrow> byte list \<Rightarrow> (dec_state \<times> byte list) option" where
  "nextFlag s inFile =
     (let s1 = s\<lparr>dflags := push_bit 1 (dflags s), flagsUsed := flagsUsed s + 1\<rparr>
      in if flagsUsed s1 = 8
         then (case inFile of
                 [] \<Rightarrow> None
               | c # rest \<Rightarrow> Some (s1\<lparr>dflags := c AND 0xFF, flagsUsed := 0\<rparr>, rest))
         else Some (s1, inFile))"

text \<open>Lines 631-633: an uncoded byte.\<close>

definition putLiteral :: "byte \<Rightarrow> dec_state \<Rightarrow> dec_state option" where
  "putLiteral c s =
     (case array_set (slidingWindow s) (nextChar s) c of
        None \<Rightarrow> None
      | Some w \<Rightarrow> Some (s\<lparr>dout := dout s @ [c], slidingWindow := w,
                           nextChar := (nextChar s + 1) smod int WINDOW_SIZE\<rparr>))"

text \<open>Lines 660-671: the match is copied out of the window into the lookahead buffer.\<close>

function readMatch :: "int \<Rightarrow> int \<Rightarrow> int \<Rightarrow> dec_state \<Rightarrow> dec_state option" where
  "readMatch i code_offset code_length s =
     (if i < code_length then
        (let src_pos = (if nextChar s \<ge> code_offset
                        then nextChar s - code_offset + i
                        else int WINDOW_SIZE - code_offset + nextChar s + i)
         in case array_get (slidingWindow s) (src_pos smod int WINDOW_SIZE) of
              None \<Rightarrow> None
            | Some c \<Rightarrow>
               (case array_set (uncodedLookahead s) i c of
                  None \<Rightarrow> None
                | Some la \<Rightarrow>
                    readMatch (i + 1) code_offset code_length
                      (s\<lparr>dout := dout s @ [c], uncodedLookahead := la\<rparr>)))
      else Some s)"
  by pat_completeness auto
termination
  by (relation "measure (\<lambda>(i, off, len, s). nat (len - i))") auto

text \<open>Lines 674-678: the lookahead buffer is copied into the window.\<close>

function writeMatch :: "int \<Rightarrow> int \<Rightarrow> dec_state \<Rightarrow> dec_state option" where
  "writeMatch i code_length s =
     (if i < code_length then
        (case array_get (uncodedLookahead s) i of
           None \<Rightarrow> None
         | Some c \<Rightarrow>
            (case array_set (slidingWindow s) ((nextChar s + i) smod int WINDOW_SIZE) c of
               None \<Rightarrow> None
             | Some w \<Rightarrow> writeMatch (i + 1) code_length (s\<lparr>slidingWindow := w\<rparr>)))
      else Some s)"
  by pat_completeness auto
termination
  by (relation "measure (\<lambda>(i, len, s). nat (len - i))") auto

text \<open>Lines 649-680: a coded string.\<close>

definition copyMatch :: "byte \<Rightarrow> byte \<Rightarrow> dec_state \<Rightarrow> dec_state option" where
  "copyMatch len_byte off_byte s =
     (let code_offset = unpackOffset len_byte off_byte;
          code_length = unpackLength len_byte
      in case readMatch 0 code_offset code_length s of
           None \<Rightarrow> None
         | Some s1 \<Rightarrow>
            (case writeMatch 0 code_length s1 of
               None \<Rightarrow> None
             | Some s2 \<Rightarrow>
                 Some (s2\<lparr>nextChar := (nextChar s2 + code_length) smod int WINDOW_SIZE\<rparr>)))"

text \<open>
  The loop of lines 605-682. Every \<open>break\<close> returns what has been written to \<open>outFile\<close>.
\<close>

function decodeLoop :: "dec_state \<Rightarrow> byte list \<Rightarrow> byte list option" where
  "decodeLoop s inFile =
     (case nextFlag s inFile of
        None \<Rightarrow> Some (dout s)
      | Some (s1, in1) \<Rightarrow>
          if dflags s1 AND 0x80 = 0 then
            (case in1 of
               [] \<Rightarrow> Some (dout s1)
             | c # in2 \<Rightarrow>
                (case putLiteral c s1 of
                   None \<Rightarrow> None
                 | Some s2 \<Rightarrow> decodeLoop s2 in2))
          else
            (case in1 of
               [] \<Rightarrow> Some (dout s1)
             | len_byte # in2 \<Rightarrow>
                (case in2 of
                   [] \<Rightarrow> Some (dout s1)
                 | off_byte # in3 \<Rightarrow>
                    (case copyMatch len_byte off_byte s1 of
                       None \<Rightarrow> None
                     | Some s2 \<Rightarrow> decodeLoop s2 in3))))"
  by pat_completeness auto
termination
  by (relation "measure (\<lambda>(s, inp). length inp)")
     (auto simp: nextFlag_def Let_def split: if_splits list.splits)

text \<open>
  \<open>DecodeLZSS\<close>: the window is filled with \<open>0x11\<close> (lines 600-603); the lookahead buffer
  is a global of static storage and starts zeroed.
\<close>

definition DecodeLZSS :: "byte list \<Rightarrow> byte list option" where
  "DecodeLZSS inFile =
     decodeLoop \<lparr>dflags = 0, flagsUsed = 7, nextChar = 0,
                 slidingWindow = replicate WINDOW_SIZE 0x11,
                 uncodedLookahead = replicate MAX_CODED 0,
                 dout = []\<rparr> inFile"

section \<open>Notions used to state the properties\<close>

text \<open>
  The number of bytes that the scan counts for one candidate distance (lines 438-447).
\<close>

definition candLen :: "byte list \<Rightarrow> nat \<Rightarrow> nat \<Rightarrow> nat" where
  "candLen inputData inputPos searchOffset =
     (let remaining = length inputData - inputPos;
          maxCheck = (if remaining < searchOffset then remaining else searchOffset)
      in countMatch inputData inputPos (inputPos - searchOffset) maxCheck 0)"

text \<open>
  The scan of lines 417-463 without the two quick rejection checks of lines 424-434:
  every candidate distance gets the full comparison.
\<close>

function searchLoopNoReject ::
  "byte list \<Rightarrow> nat \<Rightarrow> nat \<Rightarrow> nat \<Rightarrow> nat \<times> nat \<Rightarrow> nat \<times> nat" where
  "searchLoopNoReject inputData inputPos searchLimit searchOffset (bestLength, bestOffset) =
     (if searchOffset \<le> searchLimit then
        (let remaining = length inputData - inputPos;
             current = inputPos;
             candidate = inputPos - searchOffset;
             maxCheck = (if remaining < searchOffset then remaining else searchOffset);
             matchLen = countMatch inputData current candidate maxCheck 0;
             best = (if matchLen > bestLength then (matchLen, searchOffset)
                     else (bestLength, bestOffset))
         in if matchLen > MAX_LENGTH then (MAX_LENGTH, searchOffset)
            else searchLoopNoReject inputData inputPos searchLimit (searchOffset + 1) best)
      else (bestLength, bestOffset))"
  by pat_completeness auto
termination
  by (relation "measure (\<lambda>(d, p, lim, off, b). Suc lim - off)") auto

definition findBestNoReject :: "byte list \<Rightarrow> nat \<Rightarrow> nat \<times> nat" where
  "findBestNoReject inputData inputPos =
     (let searchLimit = (if inputPos \<le> WINDOW_SIZE then inputPos else WINDOW_SIZE);
          (bestLength, bestOffset) =
             (if searchLimit \<ge> 3
              then searchLoopNoReject inputData inputPos searchLimit 3 (2, 0)
              else (2, 0))
      in (if bestLength > MAX_LENGTH then MAX_LENGTH else bestLength, bestOffset))"

text \<open>
  What the scan maintains about the best match so far: either the start value, or a
  distance and a length within the limits at which the input really repeats.
\<close>

definition goodMatch :: "byte list \<Rightarrow> nat \<Rightarrow> nat \<Rightarrow> nat \<times> nat \<Rightarrow> bool" where
  "goodMatch d p lim best =
     (case best of (bl, bo) \<Rightarrow>
        (bl = 2 \<and> bo = 0) \<or>
        (3 \<le> bl \<and> bl \<le> MAX_LENGTH \<and> 3 \<le> bo \<and> bo \<le> lim \<and> bl \<le> bo \<and> bl \<le> length d - p
         \<and> (\<forall>i<bl. d ! (p + i) = d ! (p - bo + i))))"

text \<open>
  The decisions of the main loop: at each position either a literal or a match
  (distance, length), chosen as in lines 473-488.
\<close>

datatype token = Literal byte | Match nat nat

function encTokens :: "byte list \<Rightarrow> nat \<Rightarrow> token list" where
  "encTokens inputData inputPos =
     (if inputPos < length inputData then
        (let best = findBest inputData inputPos;
             bestLength = fst best;
             bestOffset = snd best
         in if bestLength \<ge> 3 \<and> bestOffset \<ge> 3
            then Match bestOffset bestLength # encTokens inputData (inputPos + bestLength)
            else Literal (inputData ! inputPos) # encTokens inputData (inputPos + 1))
      else [])"
  by pat_completeness auto
termination
  by (relation "measure (\<lambda>(d, p). length d - p)") auto

fun pushToken :: "token \<Rightarrow> enc_state \<Rightarrow> enc_state" where
  "pushToken (Literal c) s = endToken (s\<lparr>encodedData := encodedData s @ [c]\<rparr>)"
| "pushToken (Match bestOffset bestLength) s =
     endToken (s\<lparr>eflags := eflags s OR flagPos s,
                 encodedData := encodedData s @ packMatch bestOffset bestLength\<rparr>)"

text \<open>
  What the decoder keeps true of its arrays and of its window cursor.
\<close>

definition dec_ok :: "dec_state \<Rightarrow> bool" where
  "dec_ok s \<longleftrightarrow>
     length (slidingWindow s) = WINDOW_SIZE \<and> length (uncodedLookahead s) = MAX_CODED
     \<and> 0 \<le> nextChar s \<and> nextChar s < int WINDOW_SIZE"

text \<open>
  The window slot that the copy of a match reads for its \<open>i\<close>-th byte, as a natural
  number: \<open>n\<close> is the cursor \<open>nextChar\<close>.
\<close>

definition srcIndex :: "nat \<Rightarrow> nat \<Rightarrow> nat \<Rightarrow> nat" where
  "srcIndex n off i = (n + WINDOW_SIZE - off + i) mod WINDOW_SIZE"

text \<open>
  A token on the wire, its kind bit, and what it adds to the output written so far.
\<close>

fun is_match :: "token \<Rightarrow> bool" where
  "is_match (Literal c) = False"
| "is_match (Match distance len) = True"

fun wire :: "token \<Rightarrow> byte list" where
  "wire (Literal c) = [c]"
| "wire (Match distance len) = packMatch distance len"

fun expand :: "token \<Rightarrow> byte list \<Rightarrow> byte list" where
  "expand (Literal c) h = h @ [c]"
| "expand (Match distance len) h = h @ map (\<lambda>i. h ! (length h - distance + i)) [0..<len]"

text \<open>
  A token the decoder can replay from the output written so far: the match lies within
  that output and within the window and does not overlap itself. A match of length 0
  and distance 0 is the no-op that exact padding writes.
\<close>

fun tok_ok :: "byte list \<Rightarrow> token \<Rightarrow> bool" where
  "tok_ok h (Literal c) = True"
| "tok_ok h (Match distance len) =
     (len \<le> distance \<and> distance \<le> length h \<and> distance \<le> WINDOW_SIZE \<and> len \<le> MAX_LENGTH)"

fun toks_ok :: "byte list \<Rightarrow> token list \<Rightarrow> bool" where
  "toks_ok h [] = True"
| "toks_ok h (t # ts) = (tok_ok h t \<and> toks_ok (expand t h) ts)"

text \<open>
  The flag byte that the encoder builds for the tokens of one group, starting at the
  flag bit \<open>fp\<close>; \<open>flagBit k\<close> is the flag bit after \<open>k\<close> decisions.
\<close>

fun mkFlags :: "byte \<Rightarrow> token list \<Rightarrow> byte" where
  "mkFlags fp [] = 0"
| "mkFlags fp (t # ts) = (if is_match t then fp else 0) OR mkFlags (drop_bit 1 fp) ts"

definition flagBit :: "nat \<Rightarrow> byte" where
  "flagBit k = drop_bit k 0x80"

text \<open>
  The window of the decoder holds the last 1023 bytes of its output, each at the slot of
  its position modulo 1023, and the cursor is the length of the output modulo 1023.
\<close>

definition window_ok :: "dec_state \<Rightarrow> bool" where
  "window_ok s \<longleftrightarrow>
     dec_ok s \<and> nextChar s = int (length (dout s) mod WINDOW_SIZE)
     \<and> (\<forall>q<length (dout s). length (dout s) \<le> q + WINDOW_SIZE \<longrightarrow>
           slidingWindow s ! (q mod WINDOW_SIZE) = dout s ! q)"

text \<open>
  The zero match of exact padding, the bytes of the padding blocks for a size that is
  \<open>r\<close> modulo 16, and what these bytes are.
\<close>

definition noop :: token where
  "noop = Match 0 0"

definition padBytes :: "nat \<Rightarrow> byte list" where
  "padBytes r = map (\<lambda>i. padding_block ! (i mod 0x11)) [0..<padding_lengths ! (16 - r)]"

definition padShape :: "nat \<Rightarrow> byte list" where
  "padShape r =
     (if r = 0 then []
      else if odd r then 0xFF # replicate (2 * ((15 - r) div 2)) 0
      else 0xFF # replicate (2 * 8) 0 @ 0xFF # replicate (2 * ((14 - r) div 2)) 0)"

text \<open>
  The bytes of a list of tokens on the wire: groups of up to eight tokens, each group its
  flag byte followed by the bytes of its tokens (lines 473-509 and 533-539).
\<close>

function frames :: "token list \<Rightarrow> byte list" where
  "frames ts =
     (if ts = [] then []
      else mkFlags 0x80 (take 8 ts) # concat (map wire (take 8 ts)) @ frames (drop 8 ts))"
  by pat_completeness auto
termination
  by (relation "measure length") auto

section \<open>The wire layout of a match\<close>

lemma small_no_bit: "(a::nat) < 4 \<Longrightarrow> 2 \<le> n \<Longrightarrow> \<not> bit a n"
proof -
  assume "a < 4" "2 \<le> n"
  have "(4::nat) = 2 ^ 2" by simp
  also have "\<dots> \<le> 2 ^ n" using \<open>2 \<le> n\<close> by (rule power_increasing) simp
  finally have "a < 2 ^ n" using \<open>a < 4\<close> by simp
  then show ?thesis by (simp add: bit_iff_odd)
qed

lemma or_push_bit_2: "a < 4 \<Longrightarrow> (a::nat) OR push_bit 2 l = a + 4 * l"
proof -
  assume a: "a < 4"
  have "a AND push_bit 2 l = 0"
  proof (rule bit_eqI)
    fix n show "bit (a AND push_bit 2 l) n = bit (0::nat) n"
      using a small_no_bit[of a n] by (auto simp: bit_simps)
  qed
  then have "a + push_bit 2 l = a OR push_bit 2 l" by (rule disjunctive_add_eq_or)
  then show ?thesis by (simp add: push_bit_eq_mult)
qed

lemma and_255_nat: "(d::nat) AND 0xFF = d mod 256"
proof -
  have "d AND mask 8 = take_bit 8 d" by (simp add: take_bit_eq_mask)
  then show ?thesis by (simp add: mask_eq_exp_minus_1 take_bit_eq_mod)
qed

lemma and_3_int: "(k::int) AND 0x03 = k mod 4"
proof -
  have "k AND mask 2 = take_bit 2 k" by (simp add: take_bit_eq_mask)
  then show ?thesis by (simp add: mask_eq_exp_minus_1 take_bit_eq_mod)
qed

lemma packMatch_value:
  assumes "d \<le> 1023"
  shows "packMatch d l = [of_nat (d div 256 + 4 * l), of_nat (d mod 256)]"
proof -
  have "d div 256 < 4" using assms by simp
  then show ?thesis
    by (simp add: packMatch_def or_push_bit_2 drop_bit_eq_div and_255_nat)
qed

lemma uint_of_nat_small: "n < 256 \<Longrightarrow> uint (of_nat n :: byte) = int n"
  by (simp add: unsigned_of_nat take_bit_eq_mod)

lemma unpack_of_parts:
  assumes "d \<le> 1023" "l \<le> 63"
  shows "unpackOffset (of_nat (d div 256 + 4 * l)) (of_nat (d mod 256)) = int d"
    and "unpackLength (of_nat (d div 256 + 4 * l)) = int l"
proof -
  have a: "d div 256 < 4" using assms by simp
  have u: "uint (of_nat (d div 256 + 4 * l) :: byte) = int (d div 256 + 4 * l)"
    using a assms by (intro uint_of_nat_small) simp
  have u2: "uint (of_nat (d mod 256) :: byte) = int (d mod 256)"
    by (intro uint_of_nat_small) simp
  show "unpackLength (of_nat (d div 256 + 4 * l)) = int l"
    unfolding unpackLength_def u using a by (simp add: drop_bit_eq_div)
  have m: "int (d div 256 + 4 * l) mod 4 = int (d div 256)"
    using a by (simp add: zmod_int flip: of_nat_mod)
  have "d mod 256 + d div 256 * 256 = d" by simp
  then have "int (d mod 256 + d div 256 * 256) = int d" by (rule arg_cong)
  then have e: "int (d mod 256) + int (d div 256) * 256 = int d"
    by (simp only: of_nat_add of_nat_mult of_nat_numeral)
  show "unpackOffset (of_nat (d div 256 + 4 * l)) (of_nat (d mod 256)) = int d"
    unfolding unpackOffset_def u u2 and_3_int m by (simp add: push_bit_eq_mult e)
qed

lemma unpack_packMatch:
  assumes "d \<le> 1023" "l \<le> 63"
  shows "\<exists>b0 b1. packMatch d l = [b0, b1] \<and> unpackOffset b0 b1 = int d \<and> unpackLength b0 = int l"
  using assms unpack_of_parts [of d l] by (simp only: packMatch_value) blast

text \<open>
  Claim C7. The encoder stores a match as
  \<open>byte0 = (length << 2) | (distance >> 8)\<close> and \<open>byte1 = distance & 0xFF\<close>; the decoder
  computes \<open>distance = byte1 + ((byte0 & 0x03) << 8)\<close> and \<open>length = byte0 >> 2\<close>; for every
  distance up to 1023 and every length up to 63 the decoder gets back the pair that the
  encoder stored.
\<close>

theorem match_wire_roundtrip:
  assumes "distance \<le> 1023" and "len \<le> 63"
  shows "packMatch distance len =
           [of_nat (push_bit 2 len OR drop_bit 8 distance), of_nat (distance AND 0xFF)]
         \<and> (\<forall>byte0 byte1. unpackOffset byte0 byte1 = uint byte1 + push_bit 8 (uint byte0 AND 0x03)
                \<and> unpackLength byte0 = drop_bit 2 (uint byte0))
         \<and> unpackOffset (packMatch distance len ! 0) (packMatch distance len ! 1) = int distance
         \<and> unpackLength (packMatch distance len ! 0) = int len"
proof -
  have "packMatch distance len =
          [of_nat (push_bit 2 len OR drop_bit 8 distance), of_nat (distance AND 0xFF)]"
    by (simp add: packMatch_def or.commute)
  moreover have "\<forall>byte0 byte1.
      unpackOffset byte0 byte1 = uint byte1 + push_bit 8 (uint byte0 AND 0x03)
      \<and> unpackLength byte0 = drop_bit 2 (uint byte0)"
    by (simp add: unpackOffset_def unpackLength_def)
  moreover have "unpackOffset (packMatch distance len ! 0) (packMatch distance len ! 1)
                   = int distance"
    using assms unpack_of_parts(1) [of distance len]
    by (simp only: packMatch_value nth_Cons_0 nth_Cons_Suc One_nat_def)
  moreover have "unpackLength (packMatch distance len ! 0) = int len"
    using assms unpack_of_parts(2) [of distance len]
    by (simp only: packMatch_value nth_Cons_0)
  ultimately show ?thesis by blast
qed

theorem match_wire_roundtrip_witness:
  "(1023::nat) \<le> 1023 \<and> (63::nat) \<le> 63
   \<and> unpackOffset (packMatch 1023 63 ! 0) (packMatch 1023 63 ! 1) = 1023
   \<and> unpackLength (packMatch 1023 63 ! 0) = 63"
  using match_wire_roundtrip [of 1023 63] by simp

section \<open>The match search\<close>

declare countMatch.simps [simp del]
declare searchLoop.simps [simp del]
declare searchLoopNoReject.simps [simp del]

lemma countMatch_bounds: "m \<le> M \<Longrightarrow> m \<le> countMatch d c k M m \<and> countMatch d c k M m \<le> M"
proof (induction d c k M m rule: countMatch.induct)
  case (1 d c k M m)
  show ?case
  proof (cases "m < M \<and> d ! (c + m) = d ! (k + m)")
    case True
    then have "countMatch d c k M m = countMatch d c k M (m + 1)"
      by (subst countMatch.simps) simp
    moreover have "m + 1 \<le> countMatch d c k M (m + 1) \<and> countMatch d c k M (m + 1) \<le> M"
      using True "1.IH" by simp
    ultimately show ?thesis by simp
  next
    case False
    then have "countMatch d c k M m = m"
      by (subst countMatch.simps) auto
    with "1.prems" show ?thesis by simp
  qed
qed

lemma countMatch_agree:
  "m \<le> i \<Longrightarrow> i < countMatch d c k M m \<Longrightarrow> d ! (c + i) = d ! (k + i)"
proof (induction d c k M m rule: countMatch.induct)
  case (1 d c k M m)
  show ?case
  proof (cases "m < M \<and> d ! (c + m) = d ! (k + m)")
    case True
    then have e: "countMatch d c k M m = countMatch d c k M (m + 1)"
      by (subst countMatch.simps) simp
    show ?thesis
    proof (cases "i = m")
      case True
      with \<open>m < M \<and> d ! (c + m) = d ! (k + m)\<close> show ?thesis by simp
    next
      case False
      with "1.prems" have "m + 1 \<le> i" by simp
      with "1.IH" True "1.prems" e show ?thesis by simp
    qed
  next
    case False
    then have "countMatch d c k M m = m"
      by (subst countMatch.simps) auto
    with "1.prems" show ?thesis by simp
  qed
qed

lemma countMatch_stop:
  "m \<le> i \<Longrightarrow> i < M \<Longrightarrow> d ! (c + i) \<noteq> d ! (k + i) \<Longrightarrow> countMatch d c k M m \<le> i"
proof (induction d c k M m rule: countMatch.induct)
  case (1 d c k M m)
  show ?case
  proof (cases "m < M \<and> d ! (c + m) = d ! (k + m)")
    case True
    then have e: "countMatch d c k M m = countMatch d c k M (m + 1)"
      by (subst countMatch.simps) simp
    from True "1.prems" have "i \<noteq> m" by auto
    with "1.prems" have "m + 1 \<le> i" by simp
    with "1.IH" True "1.prems" e show ?thesis by simp
  next
    case False
    then have "countMatch d c k M m = m"
      by (subst countMatch.simps) auto
    with "1.prems" show ?thesis by simp
  qed
qed

lemma searchLoop_NoReject:
  "bl \<le> MAX_LENGTH \<Longrightarrow>
   searchLoop d p lim off (bl, bo) = searchLoopNoReject d p lim off (bl, bo)"
proof (induction d p lim off "(bl, bo)" arbitrary: bl bo rule: searchLoopNoReject.induct)
  case (1 d p lim off bl bo)
  define remaining where "remaining = length d - p"
  define maxCheck where "maxCheck = (if remaining < off then remaining else off)"
  define matchLen where "matchLen = countMatch d p (p - off) maxCheck 0"
  define best where "best = (if matchLen > bl then (matchLen, off) else (bl, bo))"
  show ?case
  proof (cases "off \<le> lim")
    case False
    then show ?thesis
      by (subst searchLoop.simps, subst searchLoopNoReject.simps) simp
  next
    case True
    have nr: "searchLoopNoReject d p lim off (bl, bo) =
               (if matchLen > MAX_LENGTH then (MAX_LENGTH, off)
                else searchLoopNoReject d p lim (off + 1) best)"
      using True
      by (subst searchLoopNoReject.simps)
         (simp add: Let_def remaining_def maxCheck_def matchLen_def best_def)
    have ml: "matchLen \<le> maxCheck"
      using countMatch_bounds [of 0 maxCheck d p "p - off"] by (simp add: matchLen_def)
    have IH: "\<not> matchLen > MAX_LENGTH \<Longrightarrow>
          searchLoop d p lim (off + 1) best = searchLoopNoReject d p lim (off + 1) best"
    proof -
      assume a: "\<not> matchLen > MAX_LENGTH"
      obtain bl' bo' where b: "best = (bl', bo')" by (cases best)
      then have "bl' \<le> MAX_LENGTH" using a "1.prems" by (auto simp: best_def split: if_splits)
      moreover have "(bl', bo') = (if bl < matchLen then (matchLen, off) else (bl, bo))"
        using b by (simp add: best_def)
      ultimately show ?thesis
        using "1.hyps" [OF True remaining_def refl refl maxCheck_def matchLen_def _ a, of bl' bo']
        unfolding b by simp
    qed
    consider (rej1) "d ! p \<noteq> d ! (p - off)"
      | (rej2) "d ! p = d ! (p - off)" "bl < remaining \<and> d ! (p + bl) \<noteq> d ! (p - off + bl)"
      | (full) "d ! p = d ! (p - off)" "\<not> (bl < remaining \<and> d ! (p + bl) \<noteq> d ! (p - off + bl))"
      by blast
    then show ?thesis
    proof cases
      case rej1
      have "matchLen \<le> 0"
      proof (cases "0 < maxCheck")
        case True
        then show ?thesis unfolding matchLen_def using rej1
          by (intro countMatch_stop) simp_all
      next
        case False
        with ml show ?thesis by simp
      qed
      then have "matchLen = 0" by simp
      then have "best = (bl, bo)" "\<not> matchLen > MAX_LENGTH" by (simp_all add: best_def)
      then have "searchLoop d p lim (off + 1) (bl, bo) = searchLoopNoReject d p lim off (bl, bo)"
        using nr IH by simp
      moreover have "searchLoop d p lim off (bl, bo) = searchLoop d p lim (off + 1) (bl, bo)"
        using True rej1 by (subst searchLoop.simps) (simp add: Let_def)
      ultimately show ?thesis by simp
    next
      case rej2
      have "matchLen \<le> bl"
      proof (cases "bl < maxCheck")
        case True
        then show ?thesis unfolding matchLen_def using rej2
          by (intro countMatch_stop) simp_all
      next
        case False
        with ml show ?thesis by simp
      qed
      then have "best = (bl, bo)" "\<not> matchLen > MAX_LENGTH"
        using "1.prems" by (simp_all add: best_def)
      then have "searchLoop d p lim (off + 1) (bl, bo) = searchLoopNoReject d p lim off (bl, bo)"
        using nr IH by simp
      moreover have "searchLoop d p lim off (bl, bo) = searchLoop d p lim (off + 1) (bl, bo)"
        using True rej2 by (subst searchLoop.simps) (simp add: Let_def remaining_def)
      ultimately show ?thesis by simp
    next
      case full
      have "searchLoop d p lim off (bl, bo) =
               (if matchLen > MAX_LENGTH then (MAX_LENGTH, off)
                else searchLoop d p lim (off + 1) best)"
        using True full
        by (subst searchLoop.simps)
           (auto simp add: Let_def remaining_def maxCheck_def matchLen_def best_def)
      then show ?thesis using nr IH by simp
    qed
  qed
qed


lemma candLen_le: "candLen d p off \<le> off" "candLen d p off \<le> length d - p"
  using countMatch_bounds [of 0 "if length d - p < off then length d - p else off" d p "p - off"]
  by (auto simp: candLen_def Let_def split: if_splits)

lemma candLen_agree: "i < candLen d p off \<Longrightarrow> d ! (p + i) = d ! (p - off + i)"
  using countMatch_agree [of 0 i d p "p - off"]
  by (auto simp: candLen_def Let_def split: if_splits)

lemma searchLoopNoReject_step:
  "searchLoopNoReject d p lim off (bl, bo) =
     (if off \<le> lim then
        (if candLen d p off > MAX_LENGTH then (MAX_LENGTH, off)
         else searchLoopNoReject d p lim (off + 1)
                (if candLen d p off > bl then (candLen d p off, off) else (bl, bo)))
      else (bl, bo))"
  by (subst searchLoopNoReject.simps) (simp add: candLen_def Let_def)

lemma searchLoopNoReject_good:
  "3 \<le> off \<Longrightarrow> goodMatch d p lim (bl, bo) \<Longrightarrow>
   goodMatch d p lim (searchLoopNoReject d p lim off (bl, bo))"
proof (induction "Suc lim - off" arbitrary: off bl bo)
  case 0
  then have "\<not> off \<le> lim" by simp
  then show ?case using "0.prems" by (subst searchLoopNoReject_step) simp
next
  case (Suc n)
  let ?m = "candLen d p off"
  from Suc.hyps(2) have le: "off \<le> lim" and n: "n = Suc lim - (off + 1)" by simp_all
  show ?case
  proof (cases "?m > MAX_LENGTH")
    case True
    have "goodMatch d p lim (MAX_LENGTH, off)"
      using True le Suc.prems(1) candLen_le [of d p off] candLen_agree [of _ d p off]
      by (auto simp: goodMatch_def MAX_LENGTH_def)
    then show ?thesis using True le by (subst searchLoopNoReject_step) simp
  next
    case c: False
    show ?thesis
    proof (cases "?m > bl")
      case False
      have "goodMatch d p lim (searchLoopNoReject d p lim (off + 1) (bl, bo))"
        using Suc.hyps(1) [OF n] Suc.prems by simp
      then show ?thesis using le c False by (subst searchLoopNoReject_step) simp
    next
      case True
      have "3 \<le> ?m" using True Suc.prems(2) by (auto simp: goodMatch_def)
      then have "goodMatch d p lim (?m, off)"
        using c le Suc.prems(1) candLen_le [of d p off] candLen_agree [of _ d p off]
        by (auto simp: goodMatch_def)
      then have "goodMatch d p lim (searchLoopNoReject d p lim (off + 1) (?m, off))"
        using Suc.hyps(1) [OF n] Suc.prems(1) by simp
      then show ?thesis using le c True by (subst searchLoopNoReject_step) simp
    qed
  qed
qed

lemma searchLoopNoReject_clamp:
  "off \<le> d0 \<Longrightarrow> d0 \<le> lim \<Longrightarrow> candLen d p d0 > MAX_LENGTH \<Longrightarrow>
   (\<forall>e. off \<le> e \<and> e < d0 \<longrightarrow> candLen d p e \<le> MAX_LENGTH) \<Longrightarrow>
   searchLoopNoReject d p lim off (bl, bo) = (MAX_LENGTH, d0)"
proof (induction "d0 - off" arbitrary: off bl bo)
  case 0
  then have "off = d0" by simp
  then show ?case using "0.prems" by (subst searchLoopNoReject_step) simp
next
  case (Suc n)
  then have lt: "off < d0" and n: "n = d0 - (off + 1)" by simp_all
  then have c: "\<not> candLen d p off > MAX_LENGTH" using Suc.prems(4) by (simp add: not_less)
  have "searchLoopNoReject d p lim (off + 1) b = (MAX_LENGTH, d0)" for b
    using Suc.hyps(1) [OF n, of "fst b" "snd b"] lt Suc.prems by simp
  then show ?case using lt Suc.prems(2) c by (subst searchLoopNoReject_step) simp
qed

lemma searchLoopNoReject_best:
  assumes "\<forall>e. off \<le> e \<and> e \<le> lim \<longrightarrow> candLen d p e \<le> MAX_LENGTH"
    and "searchLoopNoReject d p lim off (bl, bo) = (L, D)"
  shows "bl \<le> L \<and> (\<forall>e. off \<le> e \<and> e \<le> lim \<longrightarrow> candLen d p e \<le> L)
         \<and> (L = bl \<longrightarrow> D = bo)
         \<and> (bl < L \<longrightarrow> off \<le> D \<and> D \<le> lim \<and> candLen d p D = L
                \<and> (\<forall>e. off \<le> e \<and> e < D \<longrightarrow> candLen d p e < L))"
  using assms
proof (induction "Suc lim - off" arbitrary: off bl bo)
  case 0
  then have "\<not> off \<le> lim" by simp
  then have "searchLoopNoReject d p lim off (bl, bo) = (bl, bo)"
    by (subst searchLoopNoReject_step) simp
  with "0.prems"(2) \<open>\<not> off \<le> lim\<close> show ?case by auto
next
  case (Suc n)
  let ?m = "candLen d p off"
  from Suc.hyps(2) have le: "off \<le> lim" and n: "n = Suc lim - (off + 1)" by simp_all
  have c: "\<not> ?m > MAX_LENGTH" using Suc.prems(1) le by (simp add: not_less)
  have rest: "\<forall>e. off + 1 \<le> e \<and> e \<le> lim \<longrightarrow> candLen d p e \<le> MAX_LENGTH"
    using Suc.prems(1) by simp
  have split: "\<And>e. off \<le> e \<Longrightarrow> e = off \<or> off + 1 \<le> e" by auto
  show ?case
  proof (cases "?m > bl")
    case False
    have "searchLoopNoReject d p lim (off + 1) (bl, bo) = (L, D)"
      using Suc.prems(2) le c False by (subst (asm) searchLoopNoReject_step) simp
    from Suc.hyps(1) [OF n rest this]
    have IH: "bl \<le> L" "\<forall>e. off + 1 \<le> e \<and> e \<le> lim \<longrightarrow> candLen d p e \<le> L"
      "L = bl \<longrightarrow> D = bo"
      "bl < L \<longrightarrow> off + 1 \<le> D \<and> D \<le> lim \<and> candLen d p D = L
                \<and> (\<forall>e. off + 1 \<le> e \<and> e < D \<longrightarrow> candLen d p e < L)"
      by blast+
    have a: "\<forall>e. off \<le> e \<and> e \<le> lim \<longrightarrow> candLen d p e \<le> L"
      using IH(1,2) False split by (metis le_trans not_less)
    have b: "bl < L \<longrightarrow> off \<le> D \<and> D \<le> lim \<and> candLen d p D = L
                \<and> (\<forall>e. off \<le> e \<and> e < D \<longrightarrow> candLen d p e < L)"
    proof
      assume l: "bl < L"
      with IH(4) have i: "off + 1 \<le> D" "D \<le> lim" "candLen d p D = L"
        "\<forall>e. off + 1 \<le> e \<and> e < D \<longrightarrow> candLen d p e < L" by blast+
      have "candLen d p e < L" if "off \<le> e \<and> e < D" for e
      proof (cases "e = off")
        case True
        with False l show ?thesis by simp
      next
        case False
        with that i(4) show ?thesis by simp
      qed
      with i show "off \<le> D \<and> D \<le> lim \<and> candLen d p D = L
                \<and> (\<forall>e. off \<le> e \<and> e < D \<longrightarrow> candLen d p e < L)" by simp
    qed
    from IH(1) a IH(3) b show ?thesis by blast
  next
    case True
    have "searchLoopNoReject d p lim (off + 1) (?m, off) = (L, D)"
      using Suc.prems(2) le c True by (subst (asm) searchLoopNoReject_step) simp
    from Suc.hyps(1) [OF n rest this]
    have IH: "?m \<le> L" "\<forall>e. off + 1 \<le> e \<and> e \<le> lim \<longrightarrow> candLen d p e \<le> L"
      "L = ?m \<longrightarrow> D = off"
      "?m < L \<longrightarrow> off + 1 \<le> D \<and> D \<le> lim \<and> candLen d p D = L
                \<and> (\<forall>e. off + 1 \<le> e \<and> e < D \<longrightarrow> candLen d p e < L)"
      by blast+
    have a: "\<forall>e. off \<le> e \<and> e \<le> lim \<longrightarrow> candLen d p e \<le> L"
    proof (intro allI impI)
      fix e assume "off \<le> e \<and> e \<le> lim"
      then show "candLen d p e \<le> L" using IH(1,2) by (cases "e = off") auto
    qed
    have b: "off \<le> D \<and> D \<le> lim \<and> candLen d p D = L
                \<and> (\<forall>e. off \<le> e \<and> e < D \<longrightarrow> candLen d p e < L)"
    proof (cases "L = ?m")
      case True
      with IH(3) le show ?thesis by simp
    next
      case False
      with IH(1) have l: "?m < L" by simp
      with IH(4) have i: "off + 1 \<le> D" "D \<le> lim" "candLen d p D = L"
        "\<forall>e. off + 1 \<le> e \<and> e < D \<longrightarrow> candLen d p e < L" by blast+
      have "candLen d p e < L" if "off \<le> e \<and> e < D" for e
        using that i(4) l by (cases "e = off") auto
      with i show ?thesis by simp
    qed
    from True IH(1) a b show ?thesis by auto
  qed
qed


declare encTokens.simps [simp del]
declare encodeLoop.simps [simp del]

lemma findBest_NoReject: "findBest d p = findBestNoReject d p"
  by (simp add: findBest_def findBestNoReject_def searchLoop_NoReject MAX_LENGTH_def)

lemma findBest_good:
  "goodMatch d p (if p \<le> WINDOW_SIZE then p else WINDOW_SIZE) (findBest d p)"
proof -
  let ?lim = "if p \<le> WINDOW_SIZE then p else WINDOW_SIZE"
  let ?r = "if ?lim \<ge> 3 then searchLoopNoReject d p ?lim 3 (2, 0) else (2, 0)"
  have g: "goodMatch d p ?lim ?r"
    using searchLoopNoReject_good [of 3 d p ?lim 2 0] by (simp add: goodMatch_def)
  obtain L D where r: "?r = (L, D)" by (cases ?r)
  with g have "L \<le> MAX_LENGTH" by (auto simp: goodMatch_def MAX_LENGTH_def)
  then have "findBestNoReject d p = (L, D)"
    using r unfolding findBestNoReject_def Let_def by (simp del: searchLoopNoReject.simps)
  with g r show ?thesis by (simp add: findBest_NoReject)
qed

lemma findBest_match:
  assumes "findBest d p = (L, D)" "3 \<le> L" "3 \<le> D"
  shows "L \<le> 63 \<and> D \<le> 1023 \<and> D \<le> p \<and> L \<le> D \<and> L \<le> length d - p
         \<and> (\<forall>i<L. d ! (p + i) = d ! (p - D + i))"
  using findBest_good [of d p] assms
  by (auto simp: goodMatch_def MAX_LENGTH_def WINDOW_SIZE_def split: if_splits)

lemma encodeLoop_tokens: "encodeLoop d p s = fold pushToken (encTokens d p) s"
proof (induction d p s rule: encodeLoop.induct)
  case (1 d p s)
  show ?case
  proof (cases "p < length d")
    case False
    then show ?thesis by (subst encodeLoop.simps, subst encTokens.simps) simp
  next
    case True
    show ?thesis
    proof (cases "fst (findBest d p) \<ge> 3 \<and> snd (findBest d p) \<ge> 3")
      case m: True
      then show ?thesis using True "1.IH"(1) [OF True refl refl refl m]
        by (subst encodeLoop.simps, subst encTokens.simps) (simp add: Let_def)
    next
      case m: False
      then show ?thesis using True "1.IH"(2) [OF True refl refl refl m]
        by (subst encodeLoop.simps, subst encTokens.simps) (auto simp add: Let_def)
    qed
  qed
qed

lemma encTokens_range:
  "t \<in> set (encTokens d p) \<Longrightarrow> t = Match distance len \<Longrightarrow>
   3 \<le> distance \<and> distance \<le> 1023 \<and> 3 \<le> len \<and> len \<le> 63 \<and> len \<le> distance"
proof (induction d p rule: encTokens.induct)
  case (1 d p)
  show ?case
  proof (cases "p < length d")
    case False
    then have "encTokens d p = []" by (subst encTokens.simps) simp
    with "1.prems" show ?thesis by simp
  next
    case True
    obtain L D where b: "findBest d p = (L, D)" by (cases "findBest d p")
    show ?thesis
    proof (cases "L \<ge> 3 \<and> D \<ge> 3")
      case m: True
      then have e: "encTokens d p = Match D L # encTokens d (p + L)"
        using True b by (subst encTokens.simps) (simp add: Let_def)
      show ?thesis
      proof (cases "t = Match D L")
        case True
        with "1.prems"(2) m findBest_match [OF b] show ?thesis by simp
      next
        case False
        with e "1.prems"(1) have "t \<in> set (encTokens d (p + L))" by simp
        then show ?thesis using "1.IH"(1) [OF True refl refl refl] m b "1.prems"(2) by simp
      qed
    next
      case m: False
      then have e: "encTokens d p = Literal (d ! p) # encTokens d (p + 1)"
        using True b by (subst encTokens.simps) (auto simp add: Let_def)
      with "1.prems" have "t \<in> set (encTokens d (p + 1))" by auto
      then show ?thesis using "1.IH"(2) [OF True refl refl refl] m b "1.prems"(2) by simp
    qed
  qed
qed

subsection \<open>Properties of the search\<close>

text \<open>
  Claim C6. The two quick rejection checks of the scan (first byte differs; byte at the
  current best length differs) never change the pair (length, distance) the search
  returns: for every input and every position the search of the source returns what the
  same search without the two checks returns.
\<close>

theorem quick_rejection_keeps_result:
  "findBest inputData inputPos = findBestNoReject inputData inputPos
   \<and> searchLoop inputData inputPos searchLimit 3 (2, 0)
       = searchLoopNoReject inputData inputPos searchLimit 3 (2, 0)"
  by (simp add: findBest_NoReject searchLoop_NoReject MAX_LENGTH_def)

text \<open>
  Claim C5. The scan tries the distances from 3 upward and replaces its best match only
  by a strictly longer one. So, when no candidate counts more than 63 matching bytes, the
  search returns the greatest count and the smallest distance that reaches it. When a
  candidate counts more than 63 bytes, the length is set to 63, that candidate's distance
  is kept and the scan stops at once: the result is (63, distance of the first such
  candidate), whatever the later candidates are.
\<close>

theorem search_smallest_distance_and_clamp:
  fixes inputData :: "byte list" and inputPos :: nat
  defines "searchLimit \<equiv> (if inputPos \<le> WINDOW_SIZE then inputPos else WINDOW_SIZE)"
  shows
    "((\<forall>d. 3 \<le> d \<and> d \<le> searchLimit \<longrightarrow> candLen inputData inputPos d \<le> 63)
      \<and> (\<exists>d. 3 \<le> d \<and> d \<le> searchLimit \<and> 3 \<le> candLen inputData inputPos d)
      \<longrightarrow> (\<exists>bestLength bestOffset.
            findBest inputData inputPos = (bestLength, bestOffset)
            \<and> 3 \<le> bestOffset \<and> bestOffset \<le> searchLimit
            \<and> candLen inputData inputPos bestOffset = bestLength
            \<and> (\<forall>d. 3 \<le> d \<and> d \<le> searchLimit \<longrightarrow> candLen inputData inputPos d \<le> bestLength)
            \<and> (\<forall>d. 3 \<le> d \<and> d < bestOffset \<longrightarrow> candLen inputData inputPos d < bestLength)))
     \<and> (\<forall>d0. 3 \<le> d0 \<and> d0 \<le> searchLimit \<and> 63 < candLen inputData inputPos d0
            \<and> (\<forall>d. 3 \<le> d \<and> d < d0 \<longrightarrow> candLen inputData inputPos d \<le> 63)
          \<longrightarrow> findBest inputData inputPos = (63, d0))
     \<and> (\<forall>d0 lim bestLength bestOffset.
            d0 \<le> lim \<and> bestLength \<le> 63 \<and> 63 < candLen inputData inputPos d0
          \<longrightarrow> searchLoop inputData inputPos lim d0 (bestLength, bestOffset) = (63, d0))"
proof (intro conjI allI impI)
  assume a: "(\<forall>d. 3 \<le> d \<and> d \<le> searchLimit \<longrightarrow> candLen inputData inputPos d \<le> 63)
      \<and> (\<exists>d. 3 \<le> d \<and> d \<le> searchLimit \<and> 3 \<le> candLen inputData inputPos d)"
  then obtain d1 where d1: "3 \<le> d1" "d1 \<le> searchLimit" "3 \<le> candLen inputData inputPos d1"
    by blast
  then have lim: "3 \<le> searchLimit" by simp
  obtain L D where r: "searchLoopNoReject inputData inputPos searchLimit 3 (2, 0) = (L, D)"
    by (cases "searchLoopNoReject inputData inputPos searchLimit 3 (2, 0)")
  have c: "\<forall>e. 3 \<le> e \<and> e \<le> searchLimit \<longrightarrow> candLen inputData inputPos e \<le> MAX_LENGTH"
    using a by (simp add: MAX_LENGTH_def)
  note b = searchLoopNoReject_best [OF c r]
  from b d1 have "3 \<le> L" by (meson le_trans)
  then have 2: "2 < L" by simp
  with b have D: "3 \<le> D" "D \<le> searchLimit" "candLen inputData inputPos D = L"
    "\<forall>e. 3 \<le> e \<and> e < D \<longrightarrow> candLen inputData inputPos e < L" by blast+
  with c have "L \<le> MAX_LENGTH" by blast
  then have "findBest inputData inputPos = (L, D)"
    using r lim unfolding findBest_NoReject findBestNoReject_def Let_def searchLimit_def
    by simp
  with b D show "\<exists>bestLength bestOffset.
            findBest inputData inputPos = (bestLength, bestOffset)
            \<and> 3 \<le> bestOffset \<and> bestOffset \<le> searchLimit
            \<and> candLen inputData inputPos bestOffset = bestLength
            \<and> (\<forall>d. 3 \<le> d \<and> d \<le> searchLimit \<longrightarrow> candLen inputData inputPos d \<le> bestLength)
            \<and> (\<forall>d. 3 \<le> d \<and> d < bestOffset \<longrightarrow> candLen inputData inputPos d < bestLength)"
    by blast
next
  fix d0
  assume a: "3 \<le> d0 \<and> d0 \<le> searchLimit \<and> 63 < candLen inputData inputPos d0
            \<and> (\<forall>d. 3 \<le> d \<and> d < d0 \<longrightarrow> candLen inputData inputPos d \<le> 63)"
  then have "searchLoopNoReject inputData inputPos searchLimit 3 (2, 0) = (MAX_LENGTH, d0)"
    by (intro searchLoopNoReject_clamp) (simp_all add: MAX_LENGTH_def)
  moreover have "3 \<le> searchLimit" using a by simp
  ultimately show "findBest inputData inputPos = (63, d0)"
    unfolding findBest_NoReject findBestNoReject_def Let_def searchLimit_def
    by (simp add: MAX_LENGTH_def)
next
  fix d0 lim bestLength bestOffset :: nat
  assume a: "d0 \<le> lim \<and> bestLength \<le> 63 \<and> 63 < candLen inputData inputPos d0"
  then have "searchLoopNoReject inputData inputPos lim d0 (bestLength, bestOffset)
               = (MAX_LENGTH, d0)"
    by (intro searchLoopNoReject_clamp) (simp_all add: MAX_LENGTH_def)
  then show "searchLoop inputData inputPos lim d0 (bestLength, bestOffset) = (63, d0)"
    using a by (simp add: searchLoop_NoReject MAX_LENGTH_def)
qed

lemma candLen_run: "candLen (replicate 200 0) 100 64 = 64"
  by code_simp

lemma candLen_abc: "candLen [1, 2, 3, 1, 2, 3, 1, 2, 3] 3 3 = 3"
  by code_simp

theorem search_smallest_distance_and_clamp_witness:
  "findBest (replicate 200 0) 100 = (63, 64)
   \<and> findBest [1, 2, 3, 1, 2, 3, 1, 2, 3] 3 = (3, 3)"
proof
  have lim: "(if (100::nat) \<le> WINDOW_SIZE then 100 else WINDOW_SIZE) = 100"
    by (simp add: WINDOW_SIZE_def)
  have "candLen (replicate 200 0) 100 d \<le> 63" if "3 \<le> d \<and> d < 64" for d
    using candLen_le(1) [of "replicate 200 0" 100 d] that by linarith
  then have "3 \<le> (64::nat) \<and> (64::nat) \<le> 100 \<and> 63 < candLen (replicate 200 0) 100 64
            \<and> (\<forall>d. 3 \<le> d \<and> d < 64 \<longrightarrow> candLen (replicate 200 0) 100 d \<le> 63)"
    unfolding candLen_run by simp
  then show "findBest (replicate 200 0) 100 = (63, 64)"
    using search_smallest_distance_and_clamp
            [of 100 "replicate 200 0", unfolded lim, THEN conjunct2, THEN conjunct1,
             rule_format, of 64]
    by blast
next
  have lim: "(if (3::nat) \<le> WINDOW_SIZE then 3 else WINDOW_SIZE) = 3"
    by (simp add: WINDOW_SIZE_def)
  have "candLen [1, 2, 3, 1, 2, 3, 1, 2, 3] 3 d \<le> 63" if "3 \<le> d \<and> d \<le> 3" for d
    using candLen_le(1) [of "[1, 2, 3, 1, 2, 3, 1, 2, 3]" 3 d] that by linarith
  moreover have "\<exists>d. 3 \<le> d \<and> d \<le> 3 \<and> 3 \<le> candLen [1, 2, 3, 1, 2, 3, 1, 2, 3] 3 d"
    using candLen_abc by (intro exI [of _ 3]) simp
  ultimately have "\<exists>L D. findBest [1, 2, 3, 1, 2, 3, 1, 2, 3] 3 = (L, D) \<and> 3 \<le> D \<and> D \<le> 3
          \<and> candLen [1, 2, 3, 1, 2, 3, 1, 2, 3] 3 D = L"
    using search_smallest_distance_and_clamp
            [of 3 "[1, 2, 3, 1, 2, 3, 1, 2, 3]", unfolded lim, THEN conjunct1]
    by blast
  then obtain L D where "findBest [1, 2, 3, 1, 2, 3, 1, 2, 3] 3 = (L, D)" "3 \<le> D" "D \<le> 3"
    "candLen [1, 2, 3, 1, 2, 3, 1, 2, 3] 3 D = L" by blast
  moreover from this have "D = 3" by simp
  ultimately show "findBest [1, 2, 3, 1, 2, 3, 1, 2, 3] 3 = (3, 3)"
    using candLen_abc by simp
qed

section \<open>The decoder\<close>

declare decodeLoop.simps [simp del]
declare readMatch.simps [simp del]
declare writeMatch.simps [simp del]

lemma smod_nonneg: "0 \<le> a \<Longrightarrow> 0 < b \<Longrightarrow> (a::int) smod b = a mod b"
  by (cases "a = 0") (simp_all add: smod_int_alt_def)

lemma unpackLength_range: "0 \<le> unpackLength b \<and> unpackLength b \<le> 63"
proof -
  have "uint b < 256" using uint_lt2p [of b] by simp
  moreover have "0 \<le> uint b" by simp
  ultimately have "0 \<le> uint b div 4 \<and> uint b div 4 \<le> 63" by arith
  then show ?thesis unfolding unpackLength_def drop_bit_eq_div by simp
qed

lemma unpackOffset_range: "0 \<le> unpackOffset b0 b1 \<and> unpackOffset b0 b1 \<le> 1023"
proof -
  have "uint b1 < 256" using uint_lt2p [of b1] by simp
  moreover have "0 \<le> uint b0 mod 4 \<and> uint b0 mod 4 < 4" by simp
  ultimately show ?thesis
    unfolding unpackOffset_def and_3_int by (simp add: push_bit_eq_mult)
qed

lemma src_pos_index:
  assumes "n < WINDOW_SIZE" "off \<le> WINDOW_SIZE"
  shows "(if int n \<ge> int off then int n - int off + int i
          else int WINDOW_SIZE - int off + int n + int i) smod int WINDOW_SIZE
         = int (srcIndex n off i)"
proof -
  define A where "A = (if n \<ge> off then n - off + i else WINDOW_SIZE - off + n + i)"
  have "(if int n \<ge> int off then int n - int off + int i
          else int WINDOW_SIZE - int off + int n + int i) = int A"
    using assms by (simp add: of_nat_diff A_def)
  moreover have "A mod WINDOW_SIZE = srcIndex n off i"
  proof (cases "n \<ge> off")
    case True
    then have "n + WINDOW_SIZE - off + i = (n - off + i) + WINDOW_SIZE" by simp
    then show ?thesis using True unfolding srcIndex_def A_def
      by (simp only: mod_add_self2 if_True)
  next
    case False
    then have "n + WINDOW_SIZE - off + i = WINDOW_SIZE - off + n + i" using assms by simp
    then show ?thesis using False unfolding srcIndex_def A_def by (simp only: if_False)
  qed
  moreover have "int A smod int WINDOW_SIZE = int (A mod WINDOW_SIZE)"
    by (simp add: smod_nonneg WINDOW_SIZE_def zmod_int)
  ultimately show ?thesis by simp
qed


lemma array_get_nat: "i < length a \<Longrightarrow> array_get a (int i) = Some (a ! i)"
  by (simp add: array_get_def)

lemma array_set_nat: "i < length a \<Longrightarrow> array_set a (int i) v = Some (a[i := v])"
  by (simp add: array_set_def)

lemma srcIndex_less: "srcIndex n off i < WINDOW_SIZE"
  by (simp add: srcIndex_def WINDOW_SIZE_def)

lemma readMatch_char:
  assumes "dec_ok s" "off \<le> WINDOW_SIZE" "len \<le> 63" "i \<le> len"
  shows "\<exists>la. readMatch (int i) (int off) (int len) s
            = Some (s\<lparr>dout := dout s @ map (\<lambda>j. slidingWindow s ! srcIndex (nat (nextChar s)) off j) [i..<len],
                     uncodedLookahead := la\<rparr>)
          \<and> length la = MAX_CODED
          \<and> (\<forall>j. i \<le> j \<and> j < len \<longrightarrow> la ! j = slidingWindow s ! srcIndex (nat (nextChar s)) off j)
          \<and> (\<forall>j<i. la ! j = uncodedLookahead s ! j)"
  using assms
proof (induction "len - i" arbitrary: i s)
  case 0
  then have "i = len" by simp
  then have "readMatch (int i) (int off) (int len) s = Some s"
    by (subst readMatch.simps) simp
  with \<open>i = len\<close> "0.prems"(1) show ?case
    by (intro exI [of _ "uncodedLookahead s"]) (auto simp add: dec_ok_def)
next
  case (Suc k)
  define n where "n = nat (nextChar s)"
  define W where "W = slidingWindow s"
  define c where "c = W ! srcIndex n off i"
  define s1 where "s1 = s\<lparr>dout := dout s @ [c], uncodedLookahead := (uncodedLookahead s)[i := c]\<rparr>"
  from Suc.hyps(2) have lt: "i < len" and k: "k = len - (i + 1)" by simp_all
  from Suc.prems(1) have nc: "nextChar s = int n" and nl: "n < WINDOW_SIZE"
    and lw: "length W = WINDOW_SIZE" and ll: "length (uncodedLookahead s) = MAX_CODED"
    by (auto simp: dec_ok_def n_def W_def)
  have i64: "i < MAX_CODED" using lt Suc.prems(3) by (simp add: MAX_CODED_def MAX_UNCODED_def)
  have g: "array_get (slidingWindow s) (int (srcIndex n off i)) = Some c"
    using srcIndex_less [of n off i] lw by (simp add: array_get_nat c_def W_def)
  have st: "array_set (uncodedLookahead s) (int i) c = Some ((uncodedLookahead s)[i := c])"
    using i64 ll by (simp add: array_set_nat)
  have step: "readMatch (int i) (int off) (int len) s = readMatch (int (i + 1)) (int off) (int len) s1"
    by (subst readMatch.simps)
       (simp only: Let_def nc src_pos_index [OF nl Suc.prems(2)] g st of_nat_less_iff lt
          if_True option.case s1_def of_nat_add of_nat_1)
  have ok1: "dec_ok s1" using Suc.prems(1) by (simp add: dec_ok_def s1_def)
  have "i + 1 \<le> len" using lt by simp
  from Suc.hyps(1) [OF k ok1 Suc.prems(2,3) this]
  obtain la where la: "readMatch (int (i + 1)) (int off) (int len) s1
            = Some (s1\<lparr>dout := dout s1 @ map (\<lambda>j. slidingWindow s1 ! srcIndex (nat (nextChar s1)) off j) [i + 1..<len],
                     uncodedLookahead := la\<rparr>)"
     "length la = MAX_CODED"
     "\<forall>j. i + 1 \<le> j \<and> j < len \<longrightarrow> la ! j = slidingWindow s1 ! srcIndex (nat (nextChar s1)) off j"
     "\<forall>j<i + 1. la ! j = uncodedLookahead s1 ! j"
    by blast
  have same: "slidingWindow s1 = W" "nat (nextChar s1) = n"
    by (simp_all add: s1_def W_def n_def)
  have up: "[i..<len] = i # [i + 1..<len]" using lt by (simp add: upt_conv_Cons)
  have r: "readMatch (int i) (int off) (int len) s
            = Some (s\<lparr>dout := dout s @ map (\<lambda>j. W ! srcIndex n off j) [i..<len],
                     uncodedLookahead := la\<rparr>)"
    unfolding step la(1) same up by (simp add: s1_def c_def)
  have "la ! i = c" using la(4) i64 ll by (simp add: s1_def)
  then have a: "\<forall>j. i \<le> j \<and> j < len \<longrightarrow> la ! j = W ! srcIndex n off j"
    using la(3) unfolding same by (metis Suc_eq_plus1 Suc_leI c_def le_neq_implies_less)
  have b: "\<forall>j<i. la ! j = uncodedLookahead s ! j"
    using la(4) by (simp add: s1_def)
  from r la(2) a b show ?case unfolding W_def n_def by blast
qed

lemma writeMatch_char:
  assumes "dec_ok s" "len \<le> 63" "i \<le> len"
  shows "\<exists>w. writeMatch (int i) (int len) s = Some (s\<lparr>slidingWindow := w\<rparr>)
          \<and> length w = WINDOW_SIZE
          \<and> (\<forall>j. i \<le> j \<and> j < len \<longrightarrow>
                 w ! ((nat (nextChar s) + j) mod WINDOW_SIZE) = uncodedLookahead s ! j)
          \<and> (\<forall>x<WINDOW_SIZE. (\<forall>j. i \<le> j \<and> j < len \<longrightarrow> x \<noteq> (nat (nextChar s) + j) mod WINDOW_SIZE)
                 \<longrightarrow> w ! x = slidingWindow s ! x)"
  using assms
proof (induction "len - i" arbitrary: i s)
  case 0
  then have "i = len" by simp
  then have "writeMatch (int i) (int len) s = Some s"
    by (subst writeMatch.simps) simp
  with \<open>i = len\<close> "0.prems"(1) show ?case
    by (intro exI [of _ "slidingWindow s"]) (auto simp add: dec_ok_def)
next
  case (Suc k)
  define n where "n = nat (nextChar s)"
  define c where "c = uncodedLookahead s ! i"
  define x0 where "x0 = (n + i) mod WINDOW_SIZE"
  define s1 where "s1 = s\<lparr>slidingWindow := (slidingWindow s)[x0 := c]\<rparr>"
  from Suc.hyps(2) have lt: "i < len" and k: "k = len - (i + 1)" by simp_all
  from Suc.prems(1) have nc: "nextChar s = int n" and nl: "n < WINDOW_SIZE"
    and lw: "length (slidingWindow s) = WINDOW_SIZE"
    and ll: "length (uncodedLookahead s) = MAX_CODED"
    by (auto simp: dec_ok_def n_def)
  have i64: "i < MAX_CODED" using lt Suc.prems(2) by (simp add: MAX_CODED_def MAX_UNCODED_def)
  have x0l: "x0 < WINDOW_SIZE" by (simp add: x0_def WINDOW_SIZE_def)
  have idx: "(int n + int i) smod int WINDOW_SIZE = int x0"
    by (simp add: smod_nonneg WINDOW_SIZE_def x0_def zmod_int)
  have g: "array_get (uncodedLookahead s) (int i) = Some c"
    using i64 ll by (simp add: array_get_nat c_def)
  have st: "array_set (slidingWindow s) (int x0) c = Some ((slidingWindow s)[x0 := c])"
    using x0l lw by (simp add: array_set_nat)
  have step: "writeMatch (int i) (int len) s = writeMatch (int (i + 1)) (int len) s1"
    by (subst writeMatch.simps)
       (simp only: nc idx g st of_nat_less_iff lt if_True option.case s1_def of_nat_add of_nat_1)
  have ok1: "dec_ok s1" using Suc.prems(1) by (simp add: dec_ok_def s1_def)
  have "i + 1 \<le> len" using lt by simp
  from Suc.hyps(1) [OF k ok1 Suc.prems(2) this]
  obtain w where w: "writeMatch (int (i + 1)) (int len) s1 = Some (s1\<lparr>slidingWindow := w\<rparr>)"
     "length w = WINDOW_SIZE"
     "\<forall>j. i + 1 \<le> j \<and> j < len \<longrightarrow>
                 w ! ((nat (nextChar s1) + j) mod WINDOW_SIZE) = uncodedLookahead s1 ! j"
     "\<forall>x<WINDOW_SIZE. (\<forall>j. i + 1 \<le> j \<and> j < len \<longrightarrow> x \<noteq> (nat (nextChar s1) + j) mod WINDOW_SIZE)
                 \<longrightarrow> w ! x = slidingWindow s1 ! x"
    by blast
  have same: "uncodedLookahead s1 = uncodedLookahead s" "nat (nextChar s1) = n"
    by (simp_all add: s1_def n_def)
  have r: "writeMatch (int i) (int len) s = Some (s\<lparr>slidingWindow := w\<rparr>)"
    unfolding step w(1) by (simp add: s1_def)
  have distinct: "x0 \<noteq> (n + j) mod WINDOW_SIZE" if "i + 1 \<le> j \<and> j < len" for j
  proof
    assume e: "x0 = (n + j) mod WINDOW_SIZE"
    have "n + i \<le> n + j" using that by simp
    then have "WINDOW_SIZE dvd (n + j) - (n + i)"
      using e mod_eq_dvd_iff_nat [of "n + i" "n + j" WINDOW_SIZE] by (simp add: x0_def)
    then have "WINDOW_SIZE dvd j - i" by simp
    moreover have "0 < j - i" "j - i < WINDOW_SIZE"
      using that Suc.prems(2) unfolding WINDOW_SIZE_def by linarith+
    ultimately show False using nat_dvd_not_less by blast
  qed
  have "w ! x0 = slidingWindow s1 ! x0" using w(4) x0l distinct unfolding same by blast
  then have wi: "w ! x0 = c" using x0l lw by (simp add: s1_def)
  have a: "\<forall>j. i \<le> j \<and> j < len \<longrightarrow> w ! ((n + j) mod WINDOW_SIZE) = uncodedLookahead s ! j"
  proof (intro allI impI)
    fix j assume j: "i \<le> j \<and> j < len"
    show "w ! ((n + j) mod WINDOW_SIZE) = uncodedLookahead s ! j"
    proof (cases "j = i")
      case True
      with wi show ?thesis by (simp add: x0_def c_def)
    next
      case False
      with j have "i + 1 \<le> j \<and> j < len" by simp
      with w(3) show ?thesis unfolding same by blast
    qed
  qed
  have b: "\<forall>x<WINDOW_SIZE. (\<forall>j. i \<le> j \<and> j < len \<longrightarrow> x \<noteq> (n + j) mod WINDOW_SIZE)
                 \<longrightarrow> w ! x = slidingWindow s ! x"
  proof (intro allI impI)
    fix x assume x: "x < WINDOW_SIZE" and ne: "\<forall>j. i \<le> j \<and> j < len \<longrightarrow> x \<noteq> (n + j) mod WINDOW_SIZE"
    from ne lt have "x \<noteq> x0" unfolding x0_def by blast
    moreover from ne have "\<forall>j. i + 1 \<le> j \<and> j < len \<longrightarrow> x \<noteq> (n + j) mod WINDOW_SIZE" by simp
    ultimately show "w ! x = slidingWindow s ! x"
      using w(4) x unfolding same by (simp add: s1_def)
  qed
  from r w(2) a b show ?case unfolding n_def by blast
qed


lemma copyMatch_char:
  fixes b0 b1 :: byte
  assumes "dec_ok s"
  defines "n \<equiv> nat (nextChar s)"
    and "off \<equiv> nat (unpackOffset b0 b1)"
    and "len \<equiv> nat (unpackLength b0)"
  shows "\<exists>s'. copyMatch b0 b1 s = Some s' \<and> dec_ok s'
          \<and> dout s' = dout s @ map (\<lambda>j. slidingWindow s ! srcIndex n off j) [0..<len]
          \<and> nextChar s' = int ((n + len) mod WINDOW_SIZE)
          \<and> dflags s' = dflags s \<and> flagsUsed s' = flagsUsed s
          \<and> (\<forall>j<len. slidingWindow s' ! ((n + j) mod WINDOW_SIZE) = slidingWindow s ! srcIndex n off j)
          \<and> (\<forall>x<WINDOW_SIZE. (\<forall>j<len. x \<noteq> (n + j) mod WINDOW_SIZE)
                \<longrightarrow> slidingWindow s' ! x = slidingWindow s ! x)"
proof -
  have off: "unpackOffset b0 b1 = int off" "off \<le> WINDOW_SIZE"
    using unpackOffset_range [of b0 b1] by (simp_all add: off_def WINDOW_SIZE_def nat_le_iff)
  have len: "unpackLength b0 = int len" "len \<le> 63"
    using unpackLength_range [of b0] by (simp_all add: len_def nat_le_iff)
  from readMatch_char [OF assms(1) off(2) len(2), of 0]
  obtain la where la: "readMatch 0 (int off) (int len) s
            = Some (s\<lparr>dout := dout s @ map (\<lambda>j. slidingWindow s ! srcIndex n off j) [0..<len],
                     uncodedLookahead := la\<rparr>)"
      "length la = MAX_CODED"
      "\<forall>j. j < len \<longrightarrow> la ! j = slidingWindow s ! srcIndex n off j"
    unfolding n_def by auto
  define s1 where "s1 = s\<lparr>dout := dout s @ map (\<lambda>j. slidingWindow s ! srcIndex n off j) [0..<len],
                     uncodedLookahead := la\<rparr>"
  have ok1: "dec_ok s1" using assms(1) la(2) by (simp add: dec_ok_def s1_def)
  have n1: "nat (nextChar s1) = n" by (simp add: s1_def n_def)
  from writeMatch_char [OF ok1 len(2), of 0]
  obtain w where w: "writeMatch 0 (int len) s1 = Some (s1\<lparr>slidingWindow := w\<rparr>)"
      "length w = WINDOW_SIZE"
      "\<forall>j. j < len \<longrightarrow> w ! ((n + j) mod WINDOW_SIZE) = uncodedLookahead s1 ! j"
      "\<forall>x<WINDOW_SIZE. (\<forall>j. j < len \<longrightarrow> x \<noteq> (n + j) mod WINDOW_SIZE)
                 \<longrightarrow> w ! x = slidingWindow s1 ! x"
    unfolding n1 by auto
  define s' where "s' = s1\<lparr>slidingWindow := w,
                           nextChar := (nextChar s1 + int len) smod int WINDOW_SIZE\<rparr>"
  have c: "copyMatch b0 b1 s = Some s'"
    unfolding copyMatch_def Let_def off(1) len(1) la(1) s1_def [symmetric]
    by (simp add: w(1) s'_def)
  have nc: "nextChar s1 = int n" using assms(1) by (simp add: s1_def n_def dec_ok_def)
  have nx: "nextChar s' = int ((n + len) mod WINDOW_SIZE)"
    by (simp add: s'_def nc smod_nonneg WINDOW_SIZE_def zmod_int)
  have "dec_ok s'"
    using ok1 w(2) nx by (simp add: dec_ok_def s'_def WINDOW_SIZE_def)
  moreover have "dout s' = dout s @ map (\<lambda>j. slidingWindow s ! srcIndex n off j) [0..<len]"
    by (simp add: s'_def s1_def)
  moreover have "dflags s' = dflags s \<and> flagsUsed s' = flagsUsed s"
    by (simp add: s'_def s1_def)
  moreover have "\<forall>j<len. slidingWindow s' ! ((n + j) mod WINDOW_SIZE) = slidingWindow s ! srcIndex n off j"
    using w(3) la(3) by (simp add: s'_def s1_def)
  moreover have "\<forall>x<WINDOW_SIZE. (\<forall>j<len. x \<noteq> (n + j) mod WINDOW_SIZE)
                \<longrightarrow> slidingWindow s' ! x = slidingWindow s ! x"
    using w(4) by (simp add: s'_def s1_def)
  ultimately show ?thesis using c nx by blast
qed

lemma putLiteral_char:
  assumes "dec_ok s"
  shows "putLiteral c s = Some (s\<lparr>dout := dout s @ [c],
            slidingWindow := (slidingWindow s)[nat (nextChar s) := c],
            nextChar := int ((nat (nextChar s) + 1) mod WINDOW_SIZE)\<rparr>)"
proof -
  have "array_set (slidingWindow s) (nextChar s) c
          = Some ((slidingWindow s)[nat (nextChar s) := c])"
    using assms by (simp add: array_set_def dec_ok_def)
  moreover have "(nextChar s + 1) smod int WINDOW_SIZE
                   = int ((nat (nextChar s) + 1) mod WINDOW_SIZE)"
    using assms by (simp add: dec_ok_def smod_nonneg WINDOW_SIZE_def zmod_int add.commute)
  ultimately show ?thesis by (simp add: putLiteral_def)
qed

lemma putLiteral_ok:
  assumes "dec_ok s"
  shows "\<exists>s'. putLiteral c s = Some s' \<and> dec_ok s' \<and> dout s' = dout s @ [c]
           \<and> dflags s' = dflags s \<and> flagsUsed s' = flagsUsed s"
  using assms unfolding putLiteral_char [OF assms]
  by (simp add: dec_ok_def WINDOW_SIZE_def)

lemma copyMatch_ok:
  assumes "dec_ok s"
  shows "\<exists>s'. copyMatch b0 b1 s = Some s' \<and> dec_ok s' \<and> prefix (dout s) (dout s')
           \<and> dflags s' = dflags s \<and> flagsUsed s' = flagsUsed s"
  using copyMatch_char [OF assms, of b0 b1] by auto

lemma byte_and_FF: "(c::byte) AND 0xFF = c"
proof -
  have "(0xFF::byte) = - 1" by simp
  then show ?thesis by (simp only: and.right_neutral)
qed

lemma nextFlag_None: "nextFlag s inp = None \<longleftrightarrow> flagsUsed s + 1 = 8 \<and> inp = []"
  by (simp add: nextFlag_def Let_def split: list.splits)

lemma nextFlag_Some:
  assumes "nextFlag s inp = Some (s1, in1)"
  shows "dout s1 = dout s \<and> slidingWindow s1 = slidingWindow s \<and> nextChar s1 = nextChar s
         \<and> uncodedLookahead s1 = uncodedLookahead s \<and> (dec_ok s \<longrightarrow> dec_ok s1)
         \<and> (if flagsUsed s + 1 = 8 then inp = dflags s1 # in1 \<and> flagsUsed s1 = 0
            else inp = in1 \<and> dflags s1 = push_bit 1 (dflags s) \<and> flagsUsed s1 = flagsUsed s + 1)"
  using assms
  by (auto simp add: nextFlag_def Let_def dec_ok_def byte_and_FF split: list.splits if_splits)

lemma nextFlag_append:
  "nextFlag s inp = Some (s1, in1) \<Longrightarrow> nextFlag s (inp @ ys) = Some (s1, in1 @ ys)"
  by (auto simp add: nextFlag_def Let_def byte_and_FF split: list.splits if_splits)

lemma decodeLoop_total:
  "dec_ok s \<Longrightarrow> \<exists>out. decodeLoop s inp = Some out \<and> prefix (dout s) out"
proof (induction inp arbitrary: s rule: length_induct)
  case (1 inp)
  show ?case
  proof (cases "nextFlag s inp")
    case None
    then show ?thesis by (subst decodeLoop.simps) simp
  next
    case (Some p)
    obtain s1 in1 where p: "p = (s1, in1)" by (cases p)
    note nf = nextFlag_Some [OF Some [unfolded p]]
    from nf "1.prems" have ok1: "dec_ok s1" and o1: "dout s1 = dout s" by simp_all
    from nf have l1: "length in1 \<le> length inp" by (auto split: if_splits)
    show ?thesis
    proof (cases "dflags s1 AND 0x80 = 0")
      case lit: True
      show ?thesis
      proof (cases in1)
        case Nil
        then show ?thesis using Some p lit o1 by (subst decodeLoop.simps) simp
      next
        case (Cons c in2)
        from putLiteral_ok [OF ok1, of c] obtain s2 where
          s2: "putLiteral c s1 = Some s2" "dec_ok s2" "dout s2 = dout s1 @ [c]" by blast
        have "length in2 < length inp" using l1 Cons by simp
        with "1.IH" s2(2) obtain out where
          "decodeLoop s2 in2 = Some out" "prefix (dout s2) out" by blast
        moreover have "decodeLoop s inp = decodeLoop s2 in2"
          using Some p lit Cons s2(1) by (subst decodeLoop.simps) simp
        ultimately show ?thesis using s2(3) o1 by (auto dest: append_prefixD)
      qed
    next
      case mat: False
      show ?thesis
      proof (cases in1)
        case Nil
        then show ?thesis using Some p mat o1 by (subst decodeLoop.simps) simp
      next
        case (Cons b0 in2)
        show ?thesis
        proof (cases in2)
          case Nil
          then show ?thesis using Some p mat o1 Cons by (subst decodeLoop.simps) simp
        next
          case c2: (Cons b1 in3)
          from copyMatch_ok [OF ok1, of b0 b1] obtain s2 where
            s2: "copyMatch b0 b1 s1 = Some s2" "dec_ok s2" "prefix (dout s1) (dout s2)" by blast
          have "length in3 < length inp" using l1 Cons c2 by simp
          with "1.IH" s2(2) obtain out where
            "decodeLoop s2 in3 = Some out" "prefix (dout s2) out" by blast
          moreover have "decodeLoop s inp = decodeLoop s2 in3"
            using Some p mat Cons c2 s2(1) by (subst decodeLoop.simps) simp
          ultimately show ?thesis using s2(3) o1 by (auto intro: prefix_order.trans)
        qed
      qed
    qed
  qed
qed

lemma decodeLoop_truncated:
  "dec_ok s \<Longrightarrow> decodeLoop s xs = Some a \<Longrightarrow> decodeLoop s (xs @ ys) = Some b \<Longrightarrow> prefix a b"
proof (induction xs arbitrary: s rule: length_induct)
  case (1 xs)
  from decodeLoop_total [OF "1.prems"(1), of "xs @ ys"] "1.prems"(3)
  have pb: "prefix (dout s) b" by simp
  show ?case
  proof (cases "nextFlag s xs")
    case None
    then have "a = dout s" using "1.prems"(2) by (subst (asm) decodeLoop.simps) simp
    with pb show ?thesis by simp
  next
    case (Some p)
    obtain s1 in1 where p: "p = (s1, in1)" by (cases p)
    note nf = nextFlag_Some [OF Some [unfolded p]]
    note nfa = nextFlag_append [OF Some [unfolded p], of ys]
    from nf "1.prems" have ok1: "dec_ok s1" and o1: "dout s1 = dout s" by simp_all
    from nf have l1: "length in1 \<le> length xs" by (auto split: if_splits)
    show ?thesis
    proof (cases "dflags s1 AND 0x80 = 0")
      case lit: True
      show ?thesis
      proof (cases in1)
        case Nil
        then have "a = dout s" using "1.prems"(2) Some p lit o1
          by (subst (asm) decodeLoop.simps) simp
        with pb show ?thesis by simp
      next
        case (Cons c in2)
        from putLiteral_ok [OF ok1, of c] obtain s2 where
          s2: "putLiteral c s1 = Some s2" "dec_ok s2" by blast
        have "decodeLoop s2 in2 = Some a"
          using "1.prems"(2) Some p lit Cons s2(1) by (subst (asm) decodeLoop.simps) simp
        moreover have "decodeLoop s2 (in2 @ ys) = Some b"
          using "1.prems"(3) nfa lit Cons s2(1) by (subst (asm) decodeLoop.simps) simp
        moreover have "length in2 < length xs" using l1 Cons by simp
        ultimately show ?thesis using "1.IH" s2(2) by blast
      qed
    next
      case mat: False
      show ?thesis
      proof (cases in1)
        case Nil
        then have "a = dout s" using "1.prems"(2) Some p mat o1
          by (subst (asm) decodeLoop.simps) simp
        with pb show ?thesis by simp
      next
        case (Cons b0 in2)
        show ?thesis
        proof (cases in2)
          case Nil
          then have "a = dout s" using "1.prems"(2) Some p mat o1 Cons
            by (subst (asm) decodeLoop.simps) simp
          with pb show ?thesis by simp
        next
          case c2: (Cons b1 in3)
          from copyMatch_ok [OF ok1, of b0 b1] obtain s2 where
            s2: "copyMatch b0 b1 s1 = Some s2" "dec_ok s2" by blast
          have "decodeLoop s2 in3 = Some a"
            using "1.prems"(2) Some p mat Cons c2 s2(1) by (subst (asm) decodeLoop.simps) simp
          moreover have "decodeLoop s2 (in3 @ ys) = Some b"
            using "1.prems"(3) nfa mat Cons c2 s2(1) by (subst (asm) decodeLoop.simps) simp
          moreover have "length in3 < length xs" using l1 Cons c2 by simp
          ultimately show ?thesis using "1.IH" s2(2) by blast
        qed
      qed
    qed
  qed
qed


subsection \<open>Properties of the decoder\<close>

lemma DecodeLZSS_start_ok:
  "dec_ok \<lparr>dflags = 0, flagsUsed = 7, nextChar = 0,
           slidingWindow = replicate WINDOW_SIZE 0x11,
           uncodedLookahead = replicate MAX_CODED 0, dout = []\<rparr>"
  by (simp add: dec_ok_def WINDOW_SIZE_def)

lemma DecodeLZSS_total: "\<exists>out. DecodeLZSS inFile = Some out"
  using decodeLoop_total [OF DecodeLZSS_start_ok, of inFile] by (auto simp: DecodeLZSS_def)

text \<open>
  Claim C10. Whatever the input stream, malformed and truncated ones included, the
  decoder never reads or writes an array outside its bounds: decoding always returns an
  output, and never the value \<open>None\<close> that an access out of range gives. The length
  unpacked from the wire is below the size 64 of the lookahead buffer, and the offset is
  at most the window size 1023.
\<close>

theorem decoder_stays_in_bounds:
  "(\<exists>out. DecodeLZSS inFile = Some out)
   \<and> 0 \<le> unpackLength len_byte \<and> unpackLength len_byte < int MAX_CODED
   \<and> 0 \<le> unpackOffset len_byte off_byte \<and> unpackOffset len_byte off_byte \<le> int WINDOW_SIZE"
  using DecodeLZSS_total [of inFile] unpackLength_range [of len_byte]
    unpackOffset_range [of len_byte off_byte]
  by (simp add: MAX_CODED_def MAX_UNCODED_def WINDOW_SIZE_def)

text \<open>
  Claim C8. When the input ends where a flag byte is expected, the decoder ends and
  returns what it has written. When the input ends inside a token (where a literal byte,
  or the first or the second byte of a match is expected), the decoder stops and returns
  what it has written so far. Nothing written is ever taken back: from every state the
  result extends the output of that state, and decoding a stream cut off at any point
  gives a prefix of what decoding the whole stream gives.
\<close>

theorem eof_stops_and_keeps_output:
  "(flagsUsed s + 1 = 8 \<longrightarrow> decodeLoop s [] = Some (dout s))
   \<and> (\<forall>s1. nextFlag s inFile = Some (s1, []) \<longrightarrow> decodeLoop s inFile = Some (dout s))
   \<and> (\<forall>s1 len_byte. nextFlag s inFile = Some (s1, [len_byte]) \<and> dflags s1 AND 0x80 \<noteq> 0
         \<longrightarrow> decodeLoop s inFile = Some (dout s))
   \<and> (dec_ok s \<longrightarrow> (\<exists>out. decodeLoop s inFile = Some out \<and> prefix (dout s) out))
   \<and> (\<forall>n. \<exists>a b. DecodeLZSS (take n inFile) = Some a \<and> DecodeLZSS inFile = Some b
              \<and> prefix a b)"
proof (intro conjI allI impI)
  assume "flagsUsed s + 1 = 8"
  then show "decodeLoop s [] = Some (dout s)"
    by (subst decodeLoop.simps) (simp add: nextFlag_def)
next
  fix s1 assume a: "nextFlag s inFile = Some (s1, [])"
  from nextFlag_Some [OF a] have "dout s1 = dout s" by simp
  then show "decodeLoop s inFile = Some (dout s)"
    using a by (subst decodeLoop.simps) simp
next
  fix s1 len_byte
  assume a: "nextFlag s inFile = Some (s1, [len_byte]) \<and> dflags s1 AND 0x80 \<noteq> 0"
  from nextFlag_Some [of s inFile s1 "[len_byte]"] a have "dout s1 = dout s" by simp
  then show "decodeLoop s inFile = Some (dout s)"
    using a by (subst decodeLoop.simps) simp
next
  assume "dec_ok s"
  then show "\<exists>out. decodeLoop s inFile = Some out \<and> prefix (dout s) out"
    by (rule decodeLoop_total)
next
  fix n
  obtain a where a: "DecodeLZSS (take n inFile) = Some a"
    using DecodeLZSS_total by blast
  obtain b where b: "DecodeLZSS inFile = Some b"
    using DecodeLZSS_total by blast
  have "prefix a b"
    using decodeLoop_truncated [OF DecodeLZSS_start_ok, of "take n inFile" a "drop n inFile" b]
      a b by (simp add: DecodeLZSS_def)
  with a b show "\<exists>a b. DecodeLZSS (take n inFile) = Some a \<and> DecodeLZSS inFile = Some b
              \<and> prefix a b" by blast
qed

theorem eof_stops_and_keeps_output_witness:
  "decodeLoop \<lparr>dflags = 0, flagsUsed = 7, nextChar = 0,
           slidingWindow = replicate WINDOW_SIZE 0x11,
           uncodedLookahead = replicate MAX_CODED 0, dout = []\<rparr> [] = Some []
   \<and> decodeLoop \<lparr>dflags = 0, flagsUsed = 7, nextChar = 0,
           slidingWindow = replicate WINDOW_SIZE 0x11,
           uncodedLookahead = replicate MAX_CODED 0, dout = [0x41]\<rparr> [0x80, 0x0C] = Some [0x41]"
proof
  show "decodeLoop \<lparr>dflags = 0, flagsUsed = 7, nextChar = 0,
           slidingWindow = replicate WINDOW_SIZE 0x11,
           uncodedLookahead = replicate MAX_CODED 0, dout = []\<rparr> [] = Some []"
    using eof_stops_and_keeps_output
      [of "\<lparr>dflags = 0, flagsUsed = 7, nextChar = 0,
           slidingWindow = replicate WINDOW_SIZE 0x11,
           uncodedLookahead = replicate MAX_CODED 0, dout = []\<rparr>", THEN conjunct1]
    by simp
next
  let ?s = "\<lparr>dflags = 0, flagsUsed = 7, nextChar = 0,
           slidingWindow = replicate WINDOW_SIZE 0x11,
           uncodedLookahead = replicate MAX_CODED 0, dout = [0x41]\<rparr>"
  have "nextFlag ?s [0x80, 0x0C] = Some (?s\<lparr>dflags := 0x80, flagsUsed := 0\<rparr>, [0x0C])
        \<and> dflags (?s\<lparr>dflags := 0x80, flagsUsed := 0\<rparr>) AND 0x80 \<noteq> 0"
    by (simp add: nextFlag_def)
  then show "decodeLoop ?s [0x80, 0x0C] = Some [0x41]"
    using eof_stops_and_keeps_output
      [of ?s "[0x80, 0x0C]", THEN conjunct2, THEN conjunct2, THEN conjunct1, rule_format,
       of "?s\<lparr>dflags := 0x80, flagsUsed := 0\<rparr>" "0x0C"]
    by simp
qed

section \<open>The empty input\<close>

text \<open>
  Claim C9, as the code has it. For an empty input the encoder returns at once (lines
  377-380): it writes nothing, with every combination of the padding options, and
  decoding this empty output gives the empty sequence.
\<close>

theorem empty_input_empty_output:
  "EncodeLZSS [] dontPad exactPad = []
   \<and> DecodeLZSS (EncodeLZSS [] dontPad exactPad) = Some []"
proof -
  have "EncodeLZSS [] dontPad exactPad = []" by (simp add: EncodeLZSS_def)
  moreover have "DecodeLZSS [] = Some []"
    by (simp add: DecodeLZSS_def decodeLoop.simps nextFlag_def)
  ultimately show ?thesis by simp
qed

text \<open>
  The claim as stated fails: with plain padding enabled, the output for the empty input is
  not 16 zero bytes.
\<close>

theorem empty_input_padding_counterexample:
  "EncodeLZSS [] False False \<noteq> replicate 16 0x00"
  by (simp add: EncodeLZSS_def)

section \<open>Decoding what the encoder wrote\<close>

lemma residues_differ:
  assumes "q < p" "p < q + WINDOW_SIZE"
  shows "q mod WINDOW_SIZE \<noteq> p mod WINDOW_SIZE"
proof
  assume e: "q mod WINDOW_SIZE = p mod WINDOW_SIZE"
  have "q \<le> p" using assms by simp
  then have "WINDOW_SIZE dvd p - q"
    using e mod_eq_dvd_iff_nat [of q p WINDOW_SIZE] by simp
  moreover have "0 < p - q" "p - q < WINDOW_SIZE" using assms by simp_all
  ultimately show False using nat_dvd_not_less by blast
qed

lemma window_ok_literal:
  assumes "window_ok s"
  shows "\<exists>s'. putLiteral c s = Some s' \<and> window_ok s' \<and> dout s' = dout s @ [c]
           \<and> dflags s' = dflags s \<and> flagsUsed s' = flagsUsed s"
proof -
  define h where "h = dout s"
  define p where "p = length h"
  define n where "n = p mod WINDOW_SIZE"
  define s' where "s' = s\<lparr>dout := h @ [c], slidingWindow := (slidingWindow s)[n := c],
                         nextChar := int ((n + 1) mod WINDOW_SIZE)\<rparr>"
  from assms have ok: "dec_ok s" and nc: "nextChar s = int n"
    and inv: "\<forall>q<p. p \<le> q + WINDOW_SIZE \<longrightarrow> slidingWindow s ! (q mod WINDOW_SIZE) = h ! q"
    by (simp_all add: window_ok_def h_def p_def n_def)
  have lw: "length (slidingWindow s) = WINDOW_SIZE" using ok by (simp add: dec_ok_def)
  have nl: "n < WINDOW_SIZE" by (simp add: n_def WINDOW_SIZE_def)
  have put: "putLiteral c s = Some s'"
    unfolding putLiteral_char [OF ok] by (simp add: nc s'_def h_def)
  have ok': "dec_ok s'" using ok by (simp add: dec_ok_def s'_def WINDOW_SIZE_def)
  have nx: "nextChar s' = int (length (dout s') mod WINDOW_SIZE)"
    by (simp add: s'_def n_def p_def mod_simps)
  have "slidingWindow s' ! (q mod WINDOW_SIZE) = dout s' ! q"
    if q: "q < length (dout s')" "length (dout s') \<le> q + WINDOW_SIZE" for q
  proof (cases "q = p")
    case True
    then show ?thesis using nl lw by (simp add: s'_def n_def p_def)
  next
    case False
    with q have qp: "q < p" "p < q + WINDOW_SIZE" by (simp_all add: s'_def p_def)
    then have "q mod WINDOW_SIZE \<noteq> n" unfolding n_def by (rule residues_differ)
    then have "slidingWindow s' ! (q mod WINDOW_SIZE) = slidingWindow s ! (q mod WINDOW_SIZE)"
      by (simp add: s'_def)
    also have "\<dots> = h ! q" using inv qp by simp
    also have "\<dots> = dout s' ! q" using qp(1) by (simp add: s'_def nth_append p_def)
    finally show ?thesis .
  qed
  then have "window_ok s'" using ok' nx by (simp add: window_ok_def)
  then show ?thesis using put by (auto simp: s'_def h_def)
qed

lemma window_ok_match:
  assumes "window_ok s" and tk: "tok_ok (dout s) (Match d l)" and pk: "packMatch d l = [b0, b1]"
  shows "\<exists>s'. copyMatch b0 b1 s = Some s' \<and> window_ok s' \<and> dout s' = expand (Match d l) (dout s)
           \<and> dflags s' = dflags s \<and> flagsUsed s' = flagsUsed s"
proof -
  define h where "h = dout s"
  define p where "p = length h"
  define n where "n = p mod WINDOW_SIZE"
  define W where "W = slidingWindow s"
  from assms(1) have ok: "dec_ok s" and nc: "nextChar s = int n"
    and inv: "\<forall>q<p. p \<le> q + WINDOW_SIZE \<longrightarrow> W ! (q mod WINDOW_SIZE) = h ! q"
    by (simp_all add: window_ok_def h_def p_def n_def W_def)
  from tk have b: "l \<le> d" "d \<le> p" "d \<le> 1023" "l \<le> 63"
    by (simp_all add: h_def p_def WINDOW_SIZE_def MAX_LENGTH_def)
  from unpack_packMatch [OF b(3,4)] pk
  have un: "unpackOffset b0 b1 = int d" "unpackLength b0 = int l" by simp_all
  from copyMatch_char [OF ok, of b0 b1]
  obtain s' where s': "copyMatch b0 b1 s = Some s'" "dec_ok s'"
    "dout s' = h @ map (\<lambda>j. W ! srcIndex n d j) [0..<l]"
    "nextChar s' = int ((n + l) mod WINDOW_SIZE)"
    "dflags s' = dflags s" "flagsUsed s' = flagsUsed s"
    "\<forall>j<l. slidingWindow s' ! ((n + j) mod WINDOW_SIZE) = W ! srcIndex n d j"
    "\<forall>x<WINDOW_SIZE. (\<forall>j<l. x \<noteq> (n + j) mod WINDOW_SIZE) \<longrightarrow> slidingWindow s' ! x = W ! x"
    unfolding un nc h_def W_def by auto
  have src: "W ! srcIndex n d j = h ! (p - d + j)" if "j < l" for j
  proof -
    have 1: "n + WINDOW_SIZE - d + j = n + (WINDOW_SIZE - d + j)"
      using b(3) by (simp add: WINDOW_SIZE_def)
    have 2: "(n + (WINDOW_SIZE - d + j)) mod WINDOW_SIZE
               = (p + (WINDOW_SIZE - d + j)) mod WINDOW_SIZE"
      unfolding n_def by (rule mod_add_left_eq)
    have 3: "p + (WINDOW_SIZE - d + j) = (p - d + j) + WINDOW_SIZE"
      using b by (simp add: WINDOW_SIZE_def)
    have "srcIndex n d j = (p - d + j) mod WINDOW_SIZE"
      by (simp only: srcIndex_def 1 2 3 mod_add_self2)
    moreover have "p - d + j < p" "p \<le> (p - d + j) + WINDOW_SIZE"
      using b that by (simp_all add: WINDOW_SIZE_def)
    ultimately show ?thesis using inv by simp
  qed
  have ex: "dout s' = expand (Match d l) h"
    unfolding s'(3) using src by (simp add: p_def)
  have len': "length (dout s') = p + l" by (simp add: s'(3) p_def)
  have nx: "nextChar s' = int (length (dout s') mod WINDOW_SIZE)"
    unfolding s'(4) len' n_def by (simp add: mod_simps)
  have "slidingWindow s' ! (q mod WINDOW_SIZE) = dout s' ! q"
    if q: "q < p + l" "p + l \<le> q + WINDOW_SIZE" for q
  proof (cases "q < p")
    case False
    define j where "j = q - p"
    have j: "j < l" "q = p + j" using q False by (simp_all add: j_def)
    have "q mod WINDOW_SIZE = (n + j) mod WINDOW_SIZE"
      unfolding j(2) n_def by (simp add: mod_simps)
    then have "slidingWindow s' ! (q mod WINDOW_SIZE) = W ! srcIndex n d j"
      using s'(7) j(1) by simp
    also have "\<dots> = dout s' ! q"
      unfolding s'(3) j(2) using j(1) by (simp add: nth_append p_def)
    finally show ?thesis .
  next
    case True
    have "q mod WINDOW_SIZE \<noteq> (n + j) mod WINDOW_SIZE" if "j < l" for j
    proof -
      have "q < p + j" "p + j < q + WINDOW_SIZE" using True q that by simp_all
      then have "q mod WINDOW_SIZE \<noteq> (p + j) mod WINDOW_SIZE" by (rule residues_differ)
      then show ?thesis unfolding n_def by (simp add: mod_simps)
    qed
    moreover have "q mod WINDOW_SIZE < WINDOW_SIZE" by (simp add: WINDOW_SIZE_def)
    ultimately have "slidingWindow s' ! (q mod WINDOW_SIZE) = W ! (q mod WINDOW_SIZE)"
      using s'(8) by blast
    also have "\<dots> = h ! q" using inv True q by simp
    also have "\<dots> = dout s' ! q" using True by (simp add: s'(3) nth_append p_def)
    finally show ?thesis .
  qed
  then have "window_ok s'" using s'(2) nx len' by (simp add: window_ok_def)
  then show ?thesis using s'(1,5,6) ex by (auto simp: h_def)
qed


lemma take_plus_run:
  assumes "p + L \<le> length d"
  shows "take p d @ map (\<lambda>i. d ! (p + i)) [0..<L] = take (p + L) d"
proof -
  have "map (\<lambda>i. d ! (p + i)) [0..<L] = take L (drop p d)"
    using assms by (intro nth_equalityI) simp_all
  then show ?thesis by (simp add: take_add)
qed

lemma encTokens_expand:
  "p \<le> length d \<Longrightarrow>
   toks_ok (take p d) (encTokens d p) \<and> fold expand (encTokens d p) (take p d) = d"
proof (induction d p rule: encTokens.induct)
  case (1 d p)
  show ?case
  proof (cases "p < length d")
    case False
    with "1.prems" have "p = length d" by simp
    then show ?thesis by (subst (1 2) encTokens.simps) simp
  next
    case True
    obtain L D where b: "findBest d p = (L, D)" by (cases "findBest d p")
    show ?thesis
    proof (cases "L \<ge> 3 \<and> D \<ge> 3")
      case m: True
      then have e: "encTokens d p = Match D L # encTokens d (p + L)"
        using True b by (subst encTokens.simps) (simp add: Let_def)
      from findBest_match [OF b] m
      have f: "L \<le> 63" "D \<le> 1023" "D \<le> p" "L \<le> D" "L \<le> length d - p"
        "\<forall>i<L. d ! (p + i) = d ! (p - D + i)" by simp_all
      have pl: "p + L \<le> length d" using f(5) True by simp
      have "map (\<lambda>i. take p d ! (p - D + i)) [0..<L] = map (\<lambda>i. d ! (p + i)) [0..<L]"
        using f(3,4,6) by (intro map_cong) simp_all
      moreover have "length (take p d) = p" using True by simp
      ultimately have "expand (Match D L) (take p d)
                         = take p d @ map (\<lambda>i. d ! (p + i)) [0..<L]"
        by (simp only: expand.simps)
      then have ex: "expand (Match D L) (take p d) = take (p + L) d"
        by (simp only: take_plus_run [OF pl])
      have tk: "tok_ok (take p d) (Match D L)"
        using f True by (simp add: WINDOW_SIZE_def MAX_LENGTH_def min_def)
      from "1.IH"(1) [OF True refl refl refl] m b pl
      have "toks_ok (take (p + L) d) (encTokens d (p + L))
            \<and> fold expand (encTokens d (p + L)) (take (p + L) d) = d" by simp
      then show ?thesis unfolding e using ex tk by simp
    next
      case m: False
      then have e: "encTokens d p = Literal (d ! p) # encTokens d (p + 1)"
        using True b by (subst encTokens.simps) (auto simp add: Let_def)
      have ex: "expand (Literal (d ! p)) (take p d) = take (p + 1) d"
        using True by (simp add: take_Suc_conv_app_nth)
      have pl: "p + 1 \<le> length d" using True by simp
      from "1.IH"(2) [OF True refl refl refl] m b pl
      have "toks_ok (take (p + 1) d) (encTokens d (p + 1))
            \<and> fold expand (encTokens d (p + 1)) (take (p + 1) d) = d" by auto
      then show ?thesis unfolding e using ex by simp
    qed
  qed
qed

lemma byte_test_0x80: "((w::byte) AND 0x80 = 0) \<longleftrightarrow> \<not> bit w 7"
proof -
  have "(0x80::byte) = 2 ^ 7" by simp
  then show ?thesis by (simp only: and_exp_eq_0_iff_not_bit)
qed

lemma byte_of_nat_neq_8: "u < 7 \<Longrightarrow> (of_nat u + 1 :: byte) \<noteq> 8"
proof
  assume u: "u < 7" and e: "(of_nat u + 1 :: byte) = 8"
  have "(of_nat u + 1 :: byte) = of_nat (Suc u)" by simp
  with e have "unat (of_nat (Suc u) :: byte) = unat (8 :: byte)" by (simp only:)
  then have "Suc u mod 2 ^ 8 = 8" unfolding unat_of_nat by simp
  with u show False by simp
qed

lemma byte_bit_shift: "n < 7 \<Longrightarrow> bit (push_bit 1 (w::byte)) (Suc n) = bit w n"
  unfolding bit_push_bit_iff by simp

lemma window_ok_nextFlag:
  "nextFlag s inp = Some (s1, in1) \<Longrightarrow> window_ok s \<Longrightarrow> window_ok s1"
  using nextFlag_Some [of s inp s1 in1] by (simp add: window_ok_def)

lemma packMatch_two: "\<exists>b0 b1. packMatch d l = [b0, b1]"
  by (simp add: packMatch_def)

lemma decode_token:
  assumes nf: "\<And>rest. nextFlag s (inp @ rest) = Some (s1, wire t @ rest)"
    and ok: "window_ok s"
    and bit: "(dflags s1 AND 0x80 \<noteq> 0) = is_match t"
    and tk: "tok_ok (dout s) t"
  shows "\<exists>s'. (\<forall>rest. decodeLoop s (inp @ rest) = decodeLoop s' rest) \<and> window_ok s'
           \<and> dout s' = expand t (dout s) \<and> dflags s' = dflags s1 \<and> flagsUsed s' = flagsUsed s1"
proof -
  have ok1: "window_ok s1" using nf [of "[]"] ok by (rule window_ok_nextFlag)
  have o1: "dout s1 = dout s" using nextFlag_Some [OF nf [of "[]"]] by simp
  show ?thesis
  proof (cases t)
    case (Literal c)
    from window_ok_literal [OF ok1, of c] obtain s' where
      s': "putLiteral c s1 = Some s'" "window_ok s'" "dout s' = dout s1 @ [c]"
      "dflags s' = dflags s1" "flagsUsed s' = flagsUsed s1" by blast
    have "decodeLoop s (inp @ rest) = decodeLoop s' rest" for rest
      using nf [of rest] bit Literal s'(1) by (subst decodeLoop.simps) simp
    then show ?thesis using s' o1 Literal by auto
  next
    case (Match d l)
    obtain b0 b1 where pk: "packMatch d l = [b0, b1]" using packMatch_two by blast
    from window_ok_match [OF ok1 _ pk] tk Match o1 obtain s' where
      s': "copyMatch b0 b1 s1 = Some s'" "window_ok s'" "dout s' = expand (Match d l) (dout s1)"
      "dflags s' = dflags s1" "flagsUsed s' = flagsUsed s1" by auto
    have "decodeLoop s (inp @ rest) = decodeLoop s' rest" for rest
      using nf [of rest] bit Match s'(1) pk by (subst decodeLoop.simps) simp
    then show ?thesis using s' o1 Match by auto
  qed
qed

lemma decode_group_rest:
  assumes "window_ok s" "flagsUsed s = of_nat u" "u + length g \<le> 7"
    and "\<forall>j<length g. bit (dflags s) (6 - j) = is_match (g ! j)"
    and "toks_ok (dout s) g"
  shows "\<exists>s'. (\<forall>rest. decodeLoop s (concat (map wire g) @ rest) = decodeLoop s' rest)
           \<and> window_ok s'
           \<and> dout s' = fold expand g (dout s)
           \<and> dflags s' = push_bit (length g) (dflags s)
           \<and> flagsUsed s' = of_nat (u + length g)"
  using assms
proof (induction g arbitrary: s u)
  case Nil
  then show ?case by auto
next
  case (Cons t g)
  define s1 where "s1 = s\<lparr>dflags := push_bit 1 (dflags s), flagsUsed := of_nat u + 1\<rparr>"
  have u: "u < 7" using Cons.prems(3) by simp
  have nf: "nextFlag s (wire t @ rest) = Some (s1, wire t @ rest)" for rest
    using byte_of_nat_neq_8 [OF u] by (simp add: nextFlag_def Let_def Cons.prems(2) s1_def)
  have "bit (dflags s) 6 = is_match t" using Cons.prems(4) by auto
  moreover have "bit (dflags s1) 7 = bit (dflags s) 6"
    using byte_bit_shift [of 6 "dflags s"] by (simp add: s1_def)
  ultimately have bt: "(dflags s1 AND 0x80 \<noteq> 0) = is_match t"
    by (simp only: byte_test_0x80 not_not)
  from decode_token [OF nf Cons.prems(1) bt] Cons.prems(5) obtain s2 where
    s2: "\<And>rest. decodeLoop s (wire t @ rest) = decodeLoop s2 rest"
    "window_ok s2" "dout s2 = expand t (dout s)" "dflags s2 = dflags s1" "flagsUsed s2 = flagsUsed s1"
    by auto
  have fu: "flagsUsed s2 = of_nat (u + 1)" using s2(5) by (simp add: s1_def)
  have len: "u + 1 + length g \<le> 7" using Cons.prems(3) by simp
  have bits: "\<forall>j<length g. bit (dflags s2) (6 - j) = is_match (g ! j)"
  proof (intro allI impI)
    fix j assume j: "j < length g"
    then have "j \<le> 5" using len by simp
    then have "bit (dflags s2) (Suc (5 - j)) = bit (dflags s) (5 - j)"
      unfolding s2(4) using byte_bit_shift [of "5 - j" "dflags s"]
      by (simp add: s1_def)
    moreover have "6 - j = Suc (5 - j)" "6 - (j + 1) = 5 - j"
      using \<open>j \<le> 5\<close> by simp_all
    ultimately have "bit (dflags s2) (6 - j) = bit (dflags s) (6 - (j + 1))"
      by (simp only:)
    also have "\<dots> = is_match ((t # g) ! (j + 1))" using Cons.prems(4) j by auto
    finally show "bit (dflags s2) (6 - j) = is_match (g ! j)" by simp
  qed
  have tk: "toks_ok (dout s2) g" using Cons.prems(5) s2(3) by simp
  from Cons.IH [OF s2(2) fu len bits tk] obtain s' where
    s': "\<And>rest. decodeLoop s2 (concat (map wire g) @ rest) = decodeLoop s' rest" "window_ok s'"
    "dout s' = fold expand g (dout s2)" "dflags s' = push_bit (length g) (dflags s2)"
    "flagsUsed s' = of_nat (u + 1 + length g)" by blast
  have "dflags s' = push_bit (length (t # g)) (dflags s)"
    unfolding s'(4) s2(4) by (simp add: s1_def push_bit_push_bit)
  moreover have "decodeLoop s (concat (map wire (t # g)) @ rest) = decodeLoop s' rest" for rest
    using s2(1) [of "concat (map wire g) @ rest"] s'(1) [of rest] by simp
  ultimately show ?case using s2(3) s'(2,3,5) by (auto simp: add.commute add.left_commute)
qed

lemma decode_group:
  assumes "window_ok s" "flagsUsed s = 7" "g \<noteq> []" "length g \<le> 8"
    and "\<forall>j<length g. bit F (7 - j) = is_match (g ! j)"
    and "toks_ok (dout s) g"
  shows "\<exists>s'. (\<forall>rest. decodeLoop s (F # concat (map wire g) @ rest) = decodeLoop s' rest)
           \<and> window_ok s'
           \<and> dout s' = fold expand g (dout s)
           \<and> dflags s' = push_bit (length g - 1) F
           \<and> flagsUsed s' = of_nat (length g - 1)"
proof -
  obtain t g' where g: "g = t # g'" using assms(3) by (cases g) auto
  define s1 where "s1 = s\<lparr>dflags := F, flagsUsed := 0\<rparr>"
  have nf: "nextFlag s ((F # wire t) @ rest) = Some (s1, wire t @ rest)" for rest
    by (simp add: nextFlag_def Let_def assms(2) s1_def byte_and_FF)
  have "bit F 7 = is_match t" using assms(5) g by auto
  then have bt: "(dflags s1 AND 0x80 \<noteq> 0) = is_match t"
    by (simp add: byte_test_0x80 s1_def)
  from decode_token [OF nf assms(1) bt] assms(6) g obtain s2 where
    s2: "\<And>rest. decodeLoop s ((F # wire t) @ rest) = decodeLoop s2 rest"
    "window_ok s2" "dout s2 = expand t (dout s)" "dflags s2 = dflags s1" "flagsUsed s2 = flagsUsed s1"
    by auto
  have fu: "flagsUsed s2 = of_nat 0" using s2(5) by (simp add: s1_def)
  have len: "0 + length g' \<le> 7" using assms(4) g by simp
  have bits: "\<forall>j<length g'. bit (dflags s2) (6 - j) = is_match (g' ! j)"
  proof (intro allI impI)
    fix j assume j: "j < length g'"
    then have "j \<le> 6" using len by simp
    then have "bit (dflags s2) (6 - j) = bit F (7 - (j + 1))"
      unfolding s2(4) by (simp add: s1_def)
    also have "\<dots> = is_match (g ! (j + 1))" using assms(5) j g by auto
    finally show "bit (dflags s2) (6 - j) = is_match (g' ! j)" using g by simp
  qed
  have tk: "toks_ok (dout s2) g'" using assms(6) s2(3) g by simp
  from decode_group_rest [OF s2(2) fu len bits tk] obtain s' where
    s': "\<And>rest. decodeLoop s2 (concat (map wire g') @ rest) = decodeLoop s' rest" "window_ok s'"
    "dout s' = fold expand g' (dout s2)" "dflags s' = push_bit (length g') (dflags s2)"
    "flagsUsed s' = of_nat (0 + length g')" by blast
  have "decodeLoop s (F # concat (map wire g) @ rest) = decodeLoop s' rest" for rest
    using s2(1) [of "concat (map wire g') @ rest"] s'(1) [of rest] g by simp
  then show ?thesis using s2(3,4) s'(2,3,4,5) g by (auto simp: s1_def)
qed

lemma bit_0x80: "bit (0x80::byte) n \<longleftrightarrow> n = 7"
proof -
  have "(0x80::byte) = 2 ^ 7" by simp
  then show ?thesis by (simp only: bit_exp_iff) (auto simp: possible_bit_word)
qed

lemma bit_flagBit: "bit (flagBit k) n \<longleftrightarrow> k + n = 7"
  by (simp only: flagBit_def bit_drop_bit_eq comp_def bit_0x80)

lemma flagBit_0: "flagBit 0 = 0x80"
  by (simp add: flagBit_def)

lemma flagBit_7: "flagBit 7 = 1"
  by (simp add: flagBit_def drop_bit_eq_div)

lemma flagBit_Suc: "drop_bit 1 (flagBit k) = flagBit (Suc k)"
  by (simp only: flagBit_def drop_bit_drop_bit) simp

lemma flagBit_Suc0: "drop_bit (Suc 0) (flagBit k) = flagBit (Suc k)"
  using flagBit_Suc [of k] by simp

lemma flagBit_add: "drop_bit m (flagBit k) = flagBit (k + m)"
  by (simp only: flagBit_def drop_bit_drop_bit add.commute)

lemma flagBit_not_1: "k < 7 \<Longrightarrow> flagBit k \<noteq> 1"
proof
  assume k: "k < 7" and e: "flagBit k = 1"
  have "bit (flagBit k) 0 = bit (1::byte) 0" by (simp only: e)
  then show False using k by (simp add: bit_flagBit)
qed

lemma flagBit_eq_0: "flagBit k = 0 \<longleftrightarrow> 8 \<le> k"
proof
  assume "flagBit k = 0"
  then have "\<not> bit (flagBit k) (7 - k)" by simp
  then show "8 \<le> k" by (simp add: bit_flagBit)
next
  assume "8 \<le> k"
  then have "\<not> bit (flagBit k) n" for n by (simp add: bit_flagBit)
  then show "flagBit k = 0" by (intro bit_eqI) simp
qed

declare putBytes_def [simp]

lemma pushToken_fields:
  assumes "flagPos e = flagBit k" "k < 7"
  shows "pushToken t e = e\<lparr>eflags := eflags e OR (if is_match t then flagPos e else 0),
                            flagPos := flagBit (Suc k),
                            encodedData := encodedData e @ wire t\<rparr>"
  using flagBit_not_1 [OF assms(2)] assms(1)
  by (cases t) (simp_all add: endToken_def flagBit_Suc0)

lemma mkFlags_append:
  "mkFlags fp (a @ b) = mkFlags fp a OR mkFlags (drop_bit (length a) fp) b"
  by (induction a arbitrary: fp) (simp_all add: or.assoc drop_bit_drop_bit)

lemma pushTokens_partial:
  assumes "flagPos e = flagBit k" "k + length g \<le> 7"
  shows "fold pushToken g e
           = e\<lparr>eflags := eflags e OR mkFlags (flagPos e) g,
                flagPos := flagBit (k + length g),
                encodedData := encodedData e @ concat (map wire g)\<rparr>"
  using assms
proof (induction g arbitrary: e k)
  case Nil
  then show ?case by simp
next
  case (Cons t g)
  have k: "k < 7" using Cons.prems(2) by simp
  define e1 where "e1 = pushToken t e"
  have e1: "e1 = e\<lparr>eflags := eflags e OR (if is_match t then flagPos e else 0),
                    flagPos := flagBit (Suc k),
                    encodedData := encodedData e @ wire t\<rparr>"
    unfolding e1_def by (rule pushToken_fields [OF Cons.prems(1) k])
  have fp1: "flagPos e1 = flagBit (Suc k)" by (simp add: e1)
  have len: "Suc k + length g \<le> 7" using Cons.prems(2) by simp
  have d: "drop_bit 1 (flagPos e) = flagBit (Suc k)"
    by (simp only: Cons.prems(1) flagBit_Suc)
  have m: "mkFlags (flagPos e) (t # g)
             = (if is_match t then flagPos e else 0) OR mkFlags (flagBit (Suc k)) g"
    by (simp only: mkFlags.simps d)
  have "fold pushToken (t # g) e = fold pushToken g e1" by (simp add: e1_def)
  also have "\<dots> = e1\<lparr>eflags := eflags e1 OR mkFlags (flagPos e1) g,
                flagPos := flagBit (Suc k + length g),
                encodedData := encodedData e1 @ concat (map wire g)\<rparr>"
    by (rule Cons.IH [OF fp1 len])
  also have "\<dots> = e\<lparr>eflags := eflags e OR mkFlags (flagPos e) (t # g),
                flagPos := flagBit (k + length (t # g)),
                encodedData := encodedData e @ concat (map wire (t # g))\<rparr>"
    unfolding fp1 m by (simp add: e1 or.assoc)
  finally show ?case .
qed

lemma pushTokens_full:
  assumes "flagPos e = 0x80" "length g = 8"
  shows "fold pushToken g e
           = e\<lparr>eflags := 0, flagPos := 0x80, encodedData := [],
                compressedSize := compressedSize e
                   + length ((eflags e OR mkFlags 0x80 g) # encodedData e @ concat (map wire g)),
                eout := eout e @ (eflags e OR mkFlags 0x80 g) # encodedData e @ concat (map wire g)\<rparr>"
proof -
  obtain g7 t where g: "g = g7 @ [t]" "length g7 = 7"
    using assms(2) by (cases g rule: rev_cases) auto
  have fp: "flagPos e = flagBit 0" using assms(1) by (simp add: flagBit_0)
  define e7 where "e7 = fold pushToken g7 e"
  have e7: "e7 = e\<lparr>eflags := eflags e OR mkFlags 0x80 g7,
                flagPos := 1,
                encodedData := encodedData e @ concat (map wire g7)\<rparr>"
    unfolding e7_def using pushTokens_partial [OF fp, of g7] g(2) assms(1)
    by (simp add: flagBit_7)
  have "drop_bit 7 (0x80::byte) = 1" using flagBit_add [of 7 0] by (simp only: flagBit_0 flagBit_7 add_0)
  then have fl: "mkFlags 0x80 g = mkFlags 0x80 g7 OR (if is_match t then 1 else 0)"
    unfolding g(1) mkFlags_append g(2) by simp
  have "fold pushToken g e = pushToken t e7" by (simp add: g(1) e7_def)
  also have "\<dots> = e\<lparr>eflags := 0, flagPos := 0x80, encodedData := [],
                compressedSize := compressedSize e
                   + length ((eflags e OR mkFlags 0x80 g) # encodedData e @ concat (map wire g)),
                eout := eout e @ (eflags e OR mkFlags 0x80 g) # encodedData e @ concat (map wire g)\<rparr>"
    unfolding fl by (cases t) (simp_all add: e7 endToken_def g(1) or.assoc)
  finally show ?thesis .
qed

lemma mkFlags_bit:
  "k + length g \<le> 8 \<Longrightarrow>
   bit (mkFlags (flagBit k) g) n \<longleftrightarrow> (\<exists>j<length g. k + j + n = 7 \<and> is_match (g ! j))"
proof (induction g arbitrary: k)
  case Nil
  then show ?case by simp
next
  case (Cons t g)
  have len: "Suc k + length g \<le> 8" using Cons.prems by simp
  have "bit (mkFlags (flagBit k) (t # g)) n
          \<longleftrightarrow> (is_match t \<and> k + n = 7) \<or> bit (mkFlags (flagBit (Suc k)) g) n"
    by (simp add: bit_or_iff bit_flagBit flagBit_Suc0)
  also have "\<dots> \<longleftrightarrow> (is_match t \<and> k + n = 7)
                    \<or> (\<exists>j<length g. Suc k + j + n = 7 \<and> is_match (g ! j))"
    by (simp only: Cons.IH [OF len])
  also have "\<dots> \<longleftrightarrow> (\<exists>j<length (t # g). k + j + n = 7 \<and> is_match ((t # g) ! j))"
  proof
    assume "(is_match t \<and> k + n = 7) \<or> (\<exists>j<length g. Suc k + j + n = 7 \<and> is_match (g ! j))"
    then show "\<exists>j<length (t # g). k + j + n = 7 \<and> is_match ((t # g) ! j)"
    proof
      assume "is_match t \<and> k + n = 7"
      then show ?thesis by (intro exI [of _ 0]) simp
    next
      assume "\<exists>j<length g. Suc k + j + n = 7 \<and> is_match (g ! j)"
      then obtain j where "j < length g" "Suc k + j + n = 7" "is_match (g ! j)" by blast
      then show ?thesis by (intro exI [of _ "Suc j"]) simp
    qed
  next
    assume "\<exists>j<length (t # g). k + j + n = 7 \<and> is_match ((t # g) ! j)"
    then obtain j where j: "j < length (t # g)" "k + j + n = 7" "is_match ((t # g) ! j)" by blast
    show "(is_match t \<and> k + n = 7) \<or> (\<exists>j<length g. Suc k + j + n = 7 \<and> is_match (g ! j))"
    proof (cases j)
      case 0
      with j show ?thesis by simp
    next
      case (Suc j')
      with j have "j' < length g \<and> Suc k + j' + n = 7 \<and> is_match (g ! j')" by simp
      then show ?thesis by blast
    qed
  qed
  finally show ?case .
qed

lemma mkFlags_kind:
  assumes "length g \<le> 8" "j < length g"
  shows "bit (mkFlags 0x80 g) (7 - j) = is_match (g ! j)"
proof -
  have "bit (mkFlags (flagBit 0) g) (7 - j)
          \<longleftrightarrow> (\<exists>i<length g. 0 + i + (7 - j) = 7 \<and> is_match (g ! i))"
    using assms(1) by (intro mkFlags_bit) simp
  also have "\<dots> \<longleftrightarrow> is_match (g ! j)"
  proof
    assume "\<exists>i<length g. 0 + i + (7 - j) = 7 \<and> is_match (g ! i)"
    then obtain i where "i < length g" "0 + i + (7 - j) = 7" "is_match (g ! i)" by blast
    moreover from this assms have "i = j" by simp
    ultimately show "is_match (g ! j)" by simp
  next
    assume "is_match (g ! j)"
    moreover have "0 + j + (7 - j) = 7" using assms by simp
    ultimately show "\<exists>i<length g. 0 + i + (7 - j) = 7 \<and> is_match (g ! i)"
      using assms(2) by blast
  qed
  finally show ?thesis by (simp add: flagBit_0)
qed

lemma toks_ok_append:
  "toks_ok h (a @ b) \<longleftrightarrow> toks_ok h a \<and> toks_ok (fold expand a h) b"
  by (induction a arbitrary: h) simp_all

lemma decodeLoop_Nil: "decodeLoop s [] = Some (dout s)"
proof (cases "nextFlag s []")
  case None
  then show ?thesis by (subst decodeLoop.simps) simp
next
  case (Some p)
  obtain s1 in1 where p: "p = (s1, in1)" by (cases p)
  from nextFlag_Some [OF Some [unfolded p]] have "in1 = []" "dout s1 = dout s"
    by (auto split: if_splits)
  then show ?thesis using Some p by (subst decodeLoop.simps) simp
qed

lemma wire_nonempty: "wire t \<noteq> []"
  by (cases t) (simp_all add: packMatch_def)

lemma wires_empty: "concat (map wire g) = [] \<longleftrightarrow> g = []"
  using wire_nonempty by (cases g) auto

lemma full_groups:
  assumes "window_ok s" "flagsUsed s = 7" "toks_ok (dout s) ts"
    and "eflags e = 0" "flagPos e = 0x80" "encodedData e = []"
  shows "\<exists>X s' pend.
           fold pushToken ts e
             = e\<lparr>eflags := mkFlags 0x80 pend, flagPos := flagBit (length pend),
                  encodedData := concat (map wire pend),
                  compressedSize := compressedSize e + length X, eout := eout e @ X\<rparr>
           \<and> length pend < 8
           \<and> (\<forall>rest. decodeLoop s (X @ rest) = decodeLoop s' rest)
           \<and> window_ok s' \<and> flagsUsed s' = 7 \<and> toks_ok (dout s') pend
           \<and> fold expand pend (dout s') = fold expand ts (dout s)"
  using assms
proof (induction ts arbitrary: s e rule: length_induct)
  case (1 ts)
  show ?case
  proof (cases "length ts < 8")
    case True
    have fp: "flagPos e = flagBit 0" using "1.prems"(5) by (simp add: flagBit_0)
    have "fold pushToken ts e
             = e\<lparr>eflags := mkFlags 0x80 ts, flagPos := flagBit (length ts),
                  encodedData := concat (map wire ts),
                  compressedSize := compressedSize e + length ([]::byte list), eout := eout e @ []\<rparr>"
      using pushTokens_partial [OF fp, of ts] True "1.prems"(4,5,6) by simp
    then show ?thesis using True "1.prems"(1,2,3)
      by (intro exI [of _ "[]"] exI [of _ s] exI [of _ ts]) simp
  next
    case False
    define g where "g = take 8 ts"
    define ts' where "ts' = drop 8 ts"
    have ts: "ts = g @ ts'" and lg: "length g = 8" and lt: "length ts' < length ts"
      using False by (simp_all add: g_def ts'_def)
    define G where "G = mkFlags 0x80 g # concat (map wire g)"
    define e1 where "e1 = fold pushToken g e"
    have e1: "e1 = e\<lparr>eflags := 0, flagPos := 0x80, encodedData := [],
                compressedSize := compressedSize e + length G, eout := eout e @ G\<rparr>"
      unfolding e1_def using pushTokens_full [OF "1.prems"(5) lg] "1.prems"(4,6)
      by (simp add: G_def)
    have tk: "toks_ok (dout s) g" "toks_ok (fold expand g (dout s)) ts'"
      using "1.prems"(3) unfolding ts toks_ok_append by simp_all
    have ne: "g \<noteq> []" and le: "length g \<le> 8" using lg by auto
    have bits: "\<forall>j<length g. bit (mkFlags 0x80 g) (7 - j) = is_match (g ! j)"
      using mkFlags_kind [OF le] by blast
    from decode_group [OF "1.prems"(1,2) ne le bits tk(1)]
    obtain s1 where s1: "\<And>r. decodeLoop s (G @ r) = decodeLoop s1 r"
      "window_ok s1" "dout s1 = fold expand g (dout s)" "flagsUsed s1 = of_nat (length g - 1)"
      unfolding G_def by auto
    have fu: "flagsUsed s1 = 7" using s1(4) lg by simp
    have tk1: "toks_ok (dout s1) ts'" using tk(2) s1(3) by simp
    have e1f: "eflags e1 = 0" "flagPos e1 = 0x80" "encodedData e1 = []" by (simp_all add: e1)
    from "1.IH" [rule_format, OF lt s1(2) fu tk1 e1f]
    obtain X s' pend where r:
      "fold pushToken ts' e1
             = e1\<lparr>eflags := mkFlags 0x80 pend, flagPos := flagBit (length pend),
                  encodedData := concat (map wire pend),
                  compressedSize := compressedSize e1 + length X, eout := eout e1 @ X\<rparr>"
      "length pend < 8" "\<And>rest. decodeLoop s1 (X @ rest) = decodeLoop s' rest"
      "window_ok s'" "flagsUsed s' = 7" "toks_ok (dout s') pend"
      "fold expand pend (dout s') = fold expand ts' (dout s1)"
      by blast
    have "fold pushToken ts e = fold pushToken ts' e1" by (simp add: ts e1_def)
    also have "\<dots> = e\<lparr>eflags := mkFlags 0x80 pend, flagPos := flagBit (length pend),
                  encodedData := concat (map wire pend),
                  compressedSize := compressedSize e + length (G @ X), eout := eout e @ (G @ X)\<rparr>"
      unfolding r(1) by (simp add: e1)
    finally have a: "fold pushToken ts e = e\<lparr>eflags := mkFlags 0x80 pend, flagPos := flagBit (length pend),
                  encodedData := concat (map wire pend),
                  compressedSize := compressedSize e + length (G @ X), eout := eout e @ (G @ X)\<rparr>" .
    have b: "\<forall>rest. decodeLoop s ((G @ X) @ rest) = decodeLoop s' rest"
      using s1(1) r(3) by simp
    have c: "fold expand pend (dout s') = fold expand ts (dout s)"
      using r(7) s1(3) by (simp add: ts)
    from a r(2) b r(4,5,6) c show ?thesis by blast
  qed
qed

lemma noop_simps:
  "wire noop = [0, 0]" "is_match noop" "expand noop h = h" "tok_ok h noop"
  by (simp_all add: noop_def packMatch_def)

lemma padTokens_wire: "concat (map wire (replicate m noop)) = replicate (2 * m) 0"
  by (induction m) (simp_all add: noop_simps)

lemma padTokens_expand: "fold expand (replicate m noop) h = h"
  by (induction m) (simp_all add: noop_simps)

lemma padTokens_ok: "toks_ok h (replicate m noop)"
  by (induction m) (simp_all add: noop_simps)

declare exactPadLoop.simps [simp del]
declare plainPad.simps [simp del]

lemma exactPadLoop_char:
  assumes "flagPos e = flagBit k" "k \<le> 8"
  shows "\<exists>m. k + m \<le> 8
           \<and> exactPadLoop e
               = e\<lparr>eflags := eflags e OR mkFlags (flagPos e) (replicate m noop),
                    flagPos := flagBit (k + m),
                    encodedData := encodedData e @ replicate (2 * m) 0\<rparr>
           \<and> ((compressedSize e + length (encodedData e) + 2 * m + 1) mod 16 = 0 \<or> k + m = 8)"
  using assms
proof (induction "8 - k" arbitrary: e k)
  case 0
  then have k: "k = 8" by simp
  then have "flagPos e = 0" using "0.prems"(1) by (simp add: flagBit_eq_0)
  then have "exactPadLoop e = e" by (subst exactPadLoop.simps) simp
  then show ?case using k "0.prems"(1) by (intro exI [of _ 0]) simp
next
  case (Suc n)
  then have k: "k < 8" and n: "n = 8 - Suc k" by simp_all
  show ?case
  proof (cases "(compressedSize e + length (encodedData e) + 1) mod 16 = 0")
    case True
    then have "exactPadLoop e = e" by (subst exactPadLoop.simps) simp
    then show ?thesis using True Suc.prems by (intro exI [of _ 0]) simp
  next
    case False
    have nz: "flagPos e \<noteq> 0" using k Suc.prems(1) by (simp add: flagBit_eq_0)
    define e1 where "e1 = e\<lparr>eflags := eflags e OR flagPos e,
                               flagPos := drop_bit 1 (flagPos e),
                               encodedData := encodedData e @ [0, 0]\<rparr>"
    have step: "exactPadLoop e = exactPadLoop e1"
      using False nz by (subst exactPadLoop.simps) (simp add: e1_def)
    have fp1: "flagPos e1 = flagBit (Suc k)"
      by (simp add: e1_def Suc.prems(1) flagBit_Suc0)
    have k1: "Suc k \<le> 8" using k by simp
    from Suc.hyps(1) [OF n fp1 k1] obtain m where mm: "Suc k + m \<le> 8
      \<and> exactPadLoop e1
               = e1\<lparr>eflags := eflags e1 OR mkFlags (flagPos e1) (replicate m noop),
                    flagPos := flagBit (Suc k + m),
                    encodedData := encodedData e1 @ replicate (2 * m) 0\<rparr>
      \<and> ((compressedSize e1 + length (encodedData e1) + 2 * m + 1) mod 16 = 0 \<or> Suc k + m = 8)"
      ..
    note m = mm [THEN conjunct1] mm [THEN conjunct2, THEN conjunct1]
      mm [THEN conjunct2, THEN conjunct2]
    have fl: "mkFlags (flagPos e) (replicate (Suc m) noop)
                = flagPos e OR mkFlags (flagBit (Suc k)) (replicate m noop)"
      by (simp add: noop_simps Suc.prems(1) flagBit_Suc0)
    have "exactPadLoop e
               = e\<lparr>eflags := eflags e OR mkFlags (flagPos e) (replicate (Suc m) noop),
                    flagPos := flagBit (k + Suc m),
                    encodedData := encodedData e @ replicate (2 * Suc m) 0\<rparr>"
      unfolding step m(2) fl fp1 by (simp add: e1_def or.assoc)
    moreover have "(compressedSize e + length (encodedData e) + 2 * Suc m + 1) mod 16 = 0
                     \<or> k + Suc m = 8"
      using m(3) by (simp add: e1_def)
    ultimately show ?thesis using m(1) by (intro exI [of _ "Suc m"]) simp
  qed
qed


lemma padBytes_all: "list_all (\<lambda>r. padBytes r = padShape r) [0..<16]"
  by code_simp

lemma padBytes_shape: "r < 16 \<Longrightarrow> padBytes r = padShape r"
  using padBytes_all by (simp add: list_all_iff)

lemma padBytes_length_all: "list_all (\<lambda>r. (r + length (padBytes r)) mod 16 = 0) [0..<16]"
  by code_simp

lemma padBytes_length: "(c + length (padBytes (c mod 16))) mod 16 = 0"
proof -
  have "(c mod 16 + length (padBytes (c mod 16))) mod 16 = 0"
    using padBytes_length_all by (simp add: list_all_iff)
  then show ?thesis by (simp add: mod_simps)
qed

lemma exactPadBlocks_char:
  "exactPadBlocks s = putBytes (padBytes (compressedSize s mod 16)) s"
  by (simp add: exactPadBlocks_def padBytes_def Let_def)

lemma plainPad_aligned: "compressedSize s mod 16 = 0 \<Longrightarrow> plainPad s = s"
  by (subst plainPad.simps) simp

lemma bit_0xFF: "n < 8 \<Longrightarrow> bit (0xFF::byte) n"
proof -
  have "(0xFF::byte) = - 1" by simp
  then show "n < 8 \<Longrightarrow> bit (0xFF::byte) n" by (simp only: bit_minus_1_iff) (simp add: possible_bit_word)
qed

lemma decode_noop_group:
  assumes "window_ok s" "flagsUsed s = 7" "1 \<le> k" "k \<le> 8"
  shows "\<exists>s'. (\<forall>rest. decodeLoop s (0xFF # replicate (2 * k) 0 @ rest) = decodeLoop s' rest)
           \<and> window_ok s' \<and> dout s' = dout s \<and> flagsUsed s' = of_nat (k - 1)"
proof -
  have ne: "replicate k noop \<noteq> []" and le: "length (replicate k noop) \<le> 8"
    using assms(3,4) by auto
  have bits: "\<forall>j<length (replicate k noop). bit (0xFF::byte) (7 - j) = is_match (replicate k noop ! j)"
  proof (intro allI impI)
    fix j assume "j < length (replicate k noop)"
    moreover have "bit (0xFF::byte) (7 - j)" by (rule bit_0xFF) simp
    ultimately show "bit (0xFF::byte) (7 - j) = is_match (replicate k noop ! j)"
      by (simp only: length_replicate nth_replicate noop_simps)
  qed
  from decode_group [OF assms(1,2) ne le bits padTokens_ok]
  obtain s' where s': "\<forall>rest. decodeLoop s (0xFF # concat (map wire (replicate k noop)) @ rest)
                              = decodeLoop s' rest"
      "window_ok s'" "dout s' = fold expand (replicate k noop) (dout s)"
      "flagsUsed s' = of_nat (length (replicate k noop) - 1)"
    by blast
  note s'' = s' [unfolded padTokens_wire padTokens_expand length_replicate]
  from s'' show ?thesis by blast
qed

lemma decode_one_byte: "flagsUsed s = 7 \<Longrightarrow> decodeLoop s [c] = Some (dout s)"
  by (subst decodeLoop.simps) (simp add: nextFlag_def Let_def)

lemma decode_flag_padTokens:
  assumes "window_ok s" "flagsUsed s = 7" "k \<le> 7"
  shows "decodeLoop s (0xFF # replicate (2 * k) 0) = Some (dout s)"
proof (cases "k = 0")
  case True
  then show ?thesis using decode_one_byte [OF assms(2)] by simp
next
  case False
  then have "1 \<le> k" "k \<le> 8" using assms(3) by simp_all
  from decode_noop_group [OF assms(1,2) this] obtain s' where
    "\<forall>rest. decodeLoop s (0xFF # replicate (2 * k) 0 @ rest) = decodeLoop s' rest"
    "dout s' = dout s" by blast
  then have "decodeLoop s (0xFF # replicate (2 * k) 0 @ []) = Some (dout s)"
    by (simp only: decodeLoop_Nil)
  then show ?thesis by simp
qed

lemma decode_padBytes:
  assumes "window_ok s" "flagsUsed s = 7" "r < 16"
  shows "decodeLoop s (padBytes r) = Some (dout s)"
proof -
  consider (zero) "r = 0" | (odd) "r \<noteq> 0" "odd r" | (even) "r \<noteq> 0" "even r" by blast
  then show ?thesis
  proof cases
    case zero
    then show ?thesis by (simp add: padBytes_shape padShape_def decodeLoop_Nil)
  next
    case odd
    have "(15 - r) div 2 \<le> 7" by simp
    from decode_flag_padTokens [OF assms(1,2) this] show ?thesis
      using odd assms(3) by (simp add: padBytes_shape padShape_def)
  next
    case even
    from decode_noop_group [OF assms(1,2), of 8] obtain s' where
      s': "\<forall>rest. decodeLoop s (0xFF # replicate (2 * 8) 0 @ rest) = decodeLoop s' rest"
      "window_ok s'" "dout s' = dout s" "flagsUsed s' = of_nat (8 - 1)" by auto
    have fu: "flagsUsed s' = 7" using s'(4) by simp
    have "(14 - r) div 2 \<le> 7" by simp
    from decode_flag_padTokens [OF s'(2) fu this] s'(1,3)
    have "decodeLoop s (0xFF # replicate (2 * 8) 0 @ 0xFF # replicate (2 * ((14 - r) div 2)) 0)
            = Some (dout s)" by simp
    moreover have "padBytes r
        = 0xFF # replicate (2 * 8) 0 @ 0xFF # replicate (2 * ((14 - r) div 2)) 0"
      using even assms(3) by (simp add: padBytes_shape padShape_def)
    ultimately show ?thesis by (simp only:)
  qed
qed

lemma flush_decodes:
  fixes exactPad :: bool
  assumes ok: "window_ok s" and fu: "flagsUsed s = 7" and tk: "toks_ok (dout s) pend"
    and ll: "length pend < 8"
    and e: "eflags e = mkFlags 0x80 pend" "flagPos e = flagBit (length pend)"
           "encodedData e = concat (map wire pend)"
  defines "s2 \<equiv> (if length (encodedData e) \<noteq> 0 then flushRemaining exactPad e else e)"
  shows "\<exists>T2 s'. eout s2 = eout e @ T2 \<and> compressedSize s2 = compressedSize e + length T2
           \<and> (\<forall>rest. decodeLoop s (T2 @ rest) = decodeLoop s' rest)
           \<and> window_ok s' \<and> dout s' = fold expand pend (dout s)
           \<and> (exactPad \<longrightarrow> compressedSize s2 mod 16 = 0 \<or> flagsUsed s' = 7)"
proof (cases "pend = []")
  case True
  then have "s2 = e" using e(3) by (simp add: s2_def)
  then show ?thesis using True ok fu
    by (intro exI [of _ "[]"] exI [of _ s]) simp
next
  case False
  define k where "k = length pend"
  have k: "1 \<le> k" "k \<le> 7" using False ll by (simp_all add: k_def Suc_le_eq)
  have ne: "length (encodedData e) \<noteq> 0" using False e(3) wires_empty [of pend] by simp
  define s1 where "s1 = (if exactPad \<and> (compressedSize e + length (encodedData e) + 1) mod 16 \<noteq> 0
                         then exactPadLoop e else e)"
  have fl: "s2 = putBytes (eflags s1 # encodedData s1) s1"
    using ne by (simp add: s2_def flushRemaining_def Let_def s1_def)
  have "\<exists>m. k + m \<le> 8
           \<and> s1 = e\<lparr>eflags := eflags e OR mkFlags (flagPos e) (replicate m noop),
                    flagPos := flagBit (k + m),
                    encodedData := encodedData e @ replicate (2 * m) 0\<rparr>
           \<and> (exactPad \<longrightarrow> (compressedSize e + length (encodedData e) + 2 * m + 1) mod 16 = 0
                    \<or> k + m = 8)"
  proof (cases "exactPad \<and> (compressedSize e + length (encodedData e) + 1) mod 16 \<noteq> 0")
    case True
    have s1e: "s1 = exactPadLoop e" by (simp only: s1_def True if_True simp_thms)
    have "k \<le> 8" using k by simp
    from exactPadLoop_char [OF e(2) [folded k_def] this] obtain m where
      "k + m \<le> 8
           \<and> exactPadLoop e
               = e\<lparr>eflags := eflags e OR mkFlags (flagPos e) (replicate m noop),
                    flagPos := flagBit (k + m),
                    encodedData := encodedData e @ replicate (2 * m) 0\<rparr>
           \<and> ((compressedSize e + length (encodedData e) + 2 * m + 1) mod 16 = 0 \<or> k + m = 8)" ..
    then show ?thesis unfolding s1e by (intro exI [of _ m]) (simp only: simp_thms)
  next
    case f: False
    have s1e: "s1 = e" by (simp only: s1_def f if_False simp_thms)
    have "k + 0 \<le> 8" using k by simp
    moreover have "e = e\<lparr>eflags := eflags e OR mkFlags (flagPos e) (replicate 0 noop),
                    flagPos := flagBit (k + 0),
                    encodedData := encodedData e @ replicate (2 * 0) 0\<rparr>"
      using e(2) by (simp add: k_def)
    moreover have "exactPad \<longrightarrow> (compressedSize e + length (encodedData e) + 2 * 0 + 1) mod 16 = 0
                    \<or> k + 0 = 8"
      using f by simp
    ultimately show ?thesis unfolding s1e by (intro exI [of _ 0] conjI)
  qed
  then obtain m where mm: "k + m \<le> 8
           \<and> s1 = e\<lparr>eflags := eflags e OR mkFlags (flagPos e) (replicate m noop),
                    flagPos := flagBit (k + m),
                    encodedData := encodedData e @ replicate (2 * m) 0\<rparr>
           \<and> (exactPad \<longrightarrow> (compressedSize e + length (encodedData e) + 2 * m + 1) mod 16 = 0
                    \<or> k + m = 8)" ..
  note m = mm [THEN conjunct1] mm [THEN conjunct2, THEN conjunct1]
    mm [THEN conjunct2, THEN conjunct2]
  define g where "g = pend @ replicate m noop"
  have lg: "length g = k + m" by (simp add: g_def k_def)
  have "drop_bit k (0x80::byte) = flagBit k" by (simp only: flagBit_def)
  then have F: "eflags s1 = mkFlags 0x80 g"
    unfolding g_def mkFlags_append by (simp add: m(2) e(1,2) k_def)
  have W: "encodedData s1 = concat (map wire g)"
    unfolding g_def map_append concat_append padTokens_wire by (simp add: m(2) e(3))
  define T2 where "T2 = mkFlags 0x80 g # concat (map wire g)"
  have out: "eout s2 = eout e @ T2" "compressedSize s2 = compressedSize e + length T2"
    unfolding fl F W by (simp_all add: T2_def m(2))
  have gne: "g \<noteq> []" and gle: "length g \<le> 8" using False m(1) lg by (auto simp: g_def)
  have bits: "\<forall>j<length g. bit (mkFlags 0x80 g) (7 - j) = is_match (g ! j)"
    using mkFlags_kind [OF gle] by blast
  have gok: "toks_ok (dout s) g" unfolding g_def toks_ok_append using tk padTokens_ok by simp
  from decode_group [OF ok fu gne gle bits gok]
  obtain s' where s': "\<forall>rest. decodeLoop s (T2 @ rest) = decodeLoop s' rest"
      "window_ok s'" "dout s' = fold expand g (dout s)" "flagsUsed s' = of_nat (length g - 1)"
    unfolding T2_def by auto
  have ex: "dout s' = fold expand pend (dout s)"
    by (simp only: s'(3) g_def fold_append comp_apply padTokens_expand)
  have al: "compressedSize s2 mod 16 = 0 \<or> flagsUsed s' = 7" if exactPad
  proof -
    from m(3) that
    consider "(compressedSize e + length (encodedData e) + 2 * m + 1) mod 16 = 0" | "k + m = 8"
      by auto
    then show ?thesis
    proof cases
      case 1
      moreover have "compressedSize s2 = compressedSize e + length (encodedData e) + 2 * m + 1"
        unfolding out(2) T2_def g_def map_append concat_append padTokens_wire by (simp add: e(3))
      ultimately show ?thesis by simp
    next
      case 2
      then show ?thesis using s'(4) lg by simp
    qed
  qed
  have "eout s2 = eout e @ T2 \<and> compressedSize s2 = compressedSize e + length T2
           \<and> (\<forall>rest. decodeLoop s (T2 @ rest) = decodeLoop s' rest)
           \<and> window_ok s' \<and> dout s' = fold expand pend (dout s)
           \<and> (exactPad \<longrightarrow> compressedSize s2 mod 16 = 0 \<or> flagsUsed s' = 7)"
    using out s'(1,2) ex al by (intro conjI impI)
  then show ?thesis by (intro exI [of _ T2] exI [of _ s'])
qed

lemma finish_decodes:
  assumes ok: "window_ok s" and fu: "flagsUsed s = 7" and tk: "toks_ok (dout s) pend"
    and ll: "length pend < 8"
    and opt: "dontPad \<or> exactPad"
    and e: "eflags e = mkFlags 0x80 pend" "flagPos e = flagBit (length pend)"
           "encodedData e = concat (map wire pend)"
  shows "\<exists>T. eout (finishOutput dontPad exactPad e) = eout e @ T
           \<and> decodeLoop s T = Some (fold expand pend (dout s))"
proof -
  define s2 where "s2 = (if length (encodedData e) \<noteq> 0 then flushRemaining exactPad e else e)"
  from flush_decodes [OF ok fu tk ll e, of exactPad, folded s2_def]
  obtain T2 where "\<exists>s'. eout s2 = eout e @ T2 \<and> compressedSize s2 = compressedSize e + length T2
           \<and> (\<forall>rest. decodeLoop s (T2 @ rest) = decodeLoop s' rest)
           \<and> window_ok s' \<and> dout s' = fold expand pend (dout s)
           \<and> (exactPad \<longrightarrow> compressedSize s2 mod 16 = 0 \<or> flagsUsed s' = 7)" ..
  then obtain s' where ff: "eout s2 = eout e @ T2 \<and> compressedSize s2 = compressedSize e + length T2
           \<and> (\<forall>rest. decodeLoop s (T2 @ rest) = decodeLoop s' rest)
           \<and> window_ok s' \<and> dout s' = fold expand pend (dout s)
           \<and> (exactPad \<longrightarrow> compressedSize s2 mod 16 = 0 \<or> flagsUsed s' = 7)" ..
  note f = ff [THEN conjunct1] ff [THEN conjunct2, THEN conjunct1]
    ff [THEN conjunct2, THEN conjunct2, THEN conjunct1]
    ff [THEN conjunct2, THEN conjunct2, THEN conjunct2, THEN conjunct1]
    ff [THEN conjunct2, THEN conjunct2, THEN conjunct2, THEN conjunct2, THEN conjunct1]
    ff [THEN conjunct2, THEN conjunct2, THEN conjunct2, THEN conjunct2, THEN conjunct2]
  show ?thesis
  proof (cases exactPad)
    case False
    with opt have dontPad by simp
    then have "finishOutput dontPad exactPad e = s2"
      using False by (simp add: finishOutput_def s2_def Let_def)
    moreover have "decodeLoop s T2 = Some (fold expand pend (dout s))"
      using f(3) [rule_format, of "[]"] f(5) by (simp add: decodeLoop_Nil)
    ultimately show ?thesis using f(1) by simp
  next
    case True
    define r where "r = compressedSize s2 mod 16"
    define s3 where "s3 = putBytes (padBytes r) s2"
    have "compressedSize s3 mod 16 = 0"
      using padBytes_length [of "compressedSize s2"] by (simp add: s3_def r_def)
    then have pp: "plainPad s3 = s3" by (rule plainPad_aligned)
    have fin: "finishOutput dontPad exactPad e = s3"
      unfolding finishOutput_def Let_def s2_def [symmetric]
      by (simp only: True if_True exactPadBlocks_char r_def [symmetric] s3_def [symmetric]
            pp if_cancel)
    have "decodeLoop s' (padBytes r) = Some (dout s')"
    proof (cases "flagsUsed s' = 7")
      case True
      have "r < 16" by (simp add: r_def)
      from decode_padBytes [OF f(4) True this] show ?thesis .
    next
      case False
      with f(6) \<open>exactPad\<close> have "r = 0" by (simp add: r_def)
      then show ?thesis by (simp add: padBytes_shape padShape_def decodeLoop_Nil)
    qed
    then have "decodeLoop s (T2 @ padBytes r) = Some (fold expand pend (dout s))"
      using f(3,5) by simp
    moreover have "eout s3 = eout e @ (T2 @ padBytes r)" by (simp add: s3_def f(1))
    ultimately show ?thesis unfolding fin by blast
  qed
qed

lemma DecodeLZSS_start_window:
  "window_ok \<lparr>dflags = 0, flagsUsed = 7, nextChar = 0,
           slidingWindow = replicate WINDOW_SIZE 0x11,
           uncodedLookahead = replicate MAX_CODED 0, dout = []\<rparr>"
  using DecodeLZSS_start_ok by (simp add: window_ok_def)

lemma roundtrip_general:
  assumes "dontPad \<or> exactPad"
  shows "DecodeLZSS (EncodeLZSS B dontPad exactPad) = Some B"
proof (cases "B = []")
  case True
  then show ?thesis
    by (simp add: EncodeLZSS_def DecodeLZSS_def decodeLoop_Nil)
next
  case False
  define d0 where "d0 = \<lparr>dflags = 0, flagsUsed = 7, nextChar = 0,
           slidingWindow = replicate WINDOW_SIZE 0x11,
           uncodedLookahead = replicate MAX_CODED 0, dout = []\<rparr>"
  define e0 where "e0 = \<lparr>eflags = 0, flagPos = 0x80, encodedData = [], compressedSize = 0,
                          eout = []\<rparr>"
  define ts where "ts = encTokens B 0"
  have w0: "window_ok d0" unfolding d0_def by (rule DecodeLZSS_start_window)
  have fu0: "flagsUsed d0 = 7" and o0: "dout d0 = []" by (simp_all add: d0_def)
  have tk: "toks_ok [] ts" "fold expand ts [] = B"
    using encTokens_expand [of 0 B] by (simp_all add: ts_def)
  have e0f: "eflags e0 = 0" "flagPos e0 = 0x80" "encodedData e0 = []" "eout e0 = []"
    by (simp_all add: e0_def)
  from full_groups [OF w0 fu0 tk(1) [folded o0] e0f(1,2,3)]
  obtain X s' pend where r:
      "fold pushToken ts e0
             = e0\<lparr>eflags := mkFlags 0x80 pend, flagPos := flagBit (length pend),
                  encodedData := concat (map wire pend),
                  compressedSize := compressedSize e0 + length X, eout := eout e0 @ X\<rparr>"
      "length pend < 8" "\<forall>rest. decodeLoop d0 (X @ rest) = decodeLoop s' rest"
      "window_ok s'" "flagsUsed s' = 7" "toks_ok (dout s') pend"
      "fold expand pend (dout s') = fold expand ts (dout d0)"
    by blast
  define e1 where "e1 = fold pushToken ts e0"
  have e1: "eflags e1 = mkFlags 0x80 pend" "flagPos e1 = flagBit (length pend)"
      "encodedData e1 = concat (map wire pend)" "eout e1 = X"
    unfolding e1_def r(1) by (simp_all add: e0f)
  from finish_decodes [OF r(4,5,6,2) assms e1(1,2,3)]
  obtain T where T: "eout (finishOutput dontPad exactPad e1) = eout e1 @ T"
      "decodeLoop s' T = Some (fold expand pend (dout s'))" by blast
  have "EncodeLZSS B dontPad exactPad = X @ T"
    using False T(1) e1(4)
    by (simp add: EncodeLZSS_def Let_def encodeLoop_tokens e0_def [symmetric]
          ts_def [symmetric] e1_def [symmetric])
  moreover have "decodeLoop d0 (X @ T) = Some B"
    using r(3) T(2) r(7) tk(2) o0 by simp
  ultimately show ?thesis by (simp add: DecodeLZSS_def d0_def)
qed

section \<open>Padding and alignment\<close>

lemma pushToken_size:
  "compressedSize e = length (eout e) \<Longrightarrow>
   compressedSize (pushToken t e) = length (eout (pushToken t e))"
  by (cases t) (simp_all add: endToken_def)

lemma pushTokens_size:
  "compressedSize e = length (eout e) \<Longrightarrow>
   compressedSize (fold pushToken ts e) = length (eout (fold pushToken ts e))"
  by (induction ts arbitrary: e) (simp_all add: pushToken_size del: pushToken.simps)

lemma exactPadLoop_out:
  "compressedSize (exactPadLoop e) = compressedSize e \<and> eout (exactPadLoop e) = eout e"
proof (induction e rule: exactPadLoop.induct)
  case (1 s)
  show ?case
  proof (cases "(compressedSize s + length (encodedData s) + 1) mod 16 \<noteq> 0 \<and> flagPos s \<noteq> 0")
    case True
    then show ?thesis using "1.IH" by (subst (1 2) exactPadLoop.simps) simp
  next
    case False
    then have "exactPadLoop s = s" by (subst exactPadLoop.simps) auto
    then show ?thesis by simp
  qed
qed

lemma flushRemaining_size:
  "compressedSize e = length (eout e) \<Longrightarrow>
   compressedSize (flushRemaining exactPad e) = length (eout (flushRemaining exactPad e))"
  by (simp add: flushRemaining_def Let_def exactPadLoop_out)

lemma exactPadBlocks_size:
  assumes "compressedSize e = length (eout e)"
  shows "compressedSize (exactPadBlocks e) = length (eout (exactPadBlocks e))
         \<and> compressedSize (exactPadBlocks e) mod 16 = 0"
  using assms padBytes_length [of "compressedSize e"] by (simp add: exactPadBlocks_char)

lemma plainPad_char:
  "compressedSize s = length (eout s) \<Longrightarrow>
   compressedSize (plainPad s) = length (eout (plainPad s))
   \<and> compressedSize (plainPad s) mod 16 = 0
   \<and> (\<exists>k. eout (plainPad s) = eout s @ replicate k 0)"
proof (induction s rule: plainPad.induct)
  case (1 s)
  show ?case
  proof (cases "compressedSize s mod 0x10 \<noteq> 0")
    case False
    then have "plainPad s = s" by (subst plainPad.simps) simp
    then show ?thesis using False "1.prems" by (auto intro: exI [of _ 0])
  next
    case True
    define s1 where "s1 = putBytes [0x00] s"
    have e: "plainPad s = plainPad s1" using True by (subst plainPad.simps) (simp add: s1_def)
    have "compressedSize s1 = length (eout s1)" using "1.prems" by (simp add: s1_def)
    note ih = "1.IH" [OF True this [unfolded s1_def], folded s1_def]
    from ih have k1: "compressedSize (plainPad s1) = length (eout (plainPad s1))"
      by (rule conjunct1)
    from ih have k2: "compressedSize (plainPad s1) mod 16 = 0"
      by (rule conjunct2 [THEN conjunct1])
    from ih have "\<exists>k. eout (plainPad s1) = eout s1 @ replicate k 0"
      by (rule conjunct2 [THEN conjunct2])
    then obtain k where k3: "eout (plainPad s1) = eout s1 @ replicate k 0" ..
    have "eout (plainPad s1) = eout s @ replicate (Suc k) 0"
      unfolding k3 by (simp add: s1_def replicate_app_Cons_same)
    then have "\<exists>k. eout (plainPad s1) = eout s @ replicate k 0" ..
    with k1 k2 show ?thesis unfolding e by (intro conjI)
  qed
qed

lemma finishOutput_aligned:
  assumes "compressedSize e = length (eout e)" "\<not> dontPad \<or> exactPad"
  shows "length (eout (finishOutput dontPad exactPad e)) mod 16 = 0"
proof -
  define s2 where "s2 = (if length (encodedData e) \<noteq> 0 then flushRemaining exactPad e else e)"
  define s3 where "s3 = (if exactPad then exactPadBlocks s2 else s2)"
  have fin: "finishOutput dontPad exactPad e = (if \<not> dontPad then plainPad s3 else s3)"
    unfolding finishOutput_def Let_def s2_def [symmetric] s3_def [symmetric] ..
  have s2: "compressedSize s2 = length (eout s2)"
    using assms(1) flushRemaining_size [OF assms(1), of exactPad] by (simp add: s2_def)
  have s3: "compressedSize s3 = length (eout s3)" "exactPad \<longrightarrow> compressedSize s3 mod 16 = 0"
    using s2 exactPadBlocks_size [OF s2] by (auto simp add: s3_def)
  show ?thesis
  proof (cases dontPad)
    case False
    note pp = plainPad_char [OF s3(1)]
    have "length (eout (plainPad s3)) mod 16 = 0"
      using pp [THEN conjunct1] pp [THEN conjunct2, THEN conjunct1] by (simp only:)
    then show ?thesis using False unfolding fin by simp
  next
    case True
    with assms(2) have exactPad by simp
    with s3 True show ?thesis unfolding fin by simp
  qed
qed

lemma encodeLoop_size:
  "compressedSize e = length (eout e) \<Longrightarrow>
   compressedSize (encodeLoop d p e) = length (eout (encodeLoop d p e))"
  unfolding encodeLoop_tokens by (rule pushTokens_size)

lemma EncodeLZSS_aligned:
  assumes "\<not> dontPad \<or> exactPad"
  shows "length (EncodeLZSS B dontPad exactPad) mod 16 = 0"
proof (cases "B = []")
  case True
  then show ?thesis by (simp add: EncodeLZSS_def)
next
  case False
  have "compressedSize (encodeLoop B 0 \<lparr>eflags = 0, flagPos = 0x80, encodedData = [],
            compressedSize = 0, eout = []\<rparr>)
        = length (eout (encodeLoop B 0 \<lparr>eflags = 0, flagPos = 0x80, encodedData = [],
            compressedSize = 0, eout = []\<rparr>))"
    by (rule encodeLoop_size) simp
  from finishOutput_aligned [OF this assms] show ?thesis
    using False by (simp add: EncodeLZSS_def Let_def)
qed

lemma EncodeLZSS_plain_appends:
  "\<exists>k. EncodeLZSS B False False = EncodeLZSS B True False @ replicate k 0"
proof (cases "B = []")
  case True
  then show ?thesis by (simp add: EncodeLZSS_def)
next
  case False
  define e1 where "e1 = encodeLoop B 0 \<lparr>eflags = 0, flagPos = 0x80, encodedData = [],
            compressedSize = 0, eout = []\<rparr>"
  define s3 where "s3 = finishOutput True False e1"
  have sz: "compressedSize e1 = length (eout e1)"
    unfolding e1_def by (rule encodeLoop_size) simp
  have s3: "s3 = (if length (encodedData e1) \<noteq> 0 then flushRemaining False e1 else e1)"
    by (simp add: s3_def finishOutput_def Let_def)
  have "compressedSize s3 = length (eout s3)"
    using sz flushRemaining_size [OF sz, of False] by (simp add: s3)
  from plainPad_char [OF this] obtain k where "eout (plainPad s3) = eout s3 @ replicate k 0"
    by blast
  moreover have "finishOutput False False e1 = plainPad s3"
    by (simp add: s3 finishOutput_def Let_def)
  ultimately show ?thesis using False
    by (auto simp add: EncodeLZSS_def Let_def e1_def [symmetric] s3_def [symmetric])
qed

lemma plain_padding_prefix:
  "\<exists>out. DecodeLZSS (EncodeLZSS B False False) = Some out \<and> prefix B out"
proof -
  obtain k where k: "EncodeLZSS B False False = EncodeLZSS B True False @ replicate k 0"
    using EncodeLZSS_plain_appends by blast
  obtain out where out: "DecodeLZSS (EncodeLZSS B False False) = Some out"
    using DecodeLZSS_total by blast
  have "DecodeLZSS (EncodeLZSS B True False) = Some B" by (rule roundtrip_general) simp
  then have "prefix B out"
    using decodeLoop_truncated [OF DecodeLZSS_start_ok, of "EncodeLZSS B True False" B
            "replicate k 0" out] out
    unfolding k DecodeLZSS_def by simp
  with out show ?thesis by blast
qed

text \<open>
  Claim C1. For every byte sequence, the empty one included, decoding what the encoder
  writes with padding suppressed and exact padding off gives the sequence back.
\<close>

theorem roundtrip_without_padding:
  "DecodeLZSS (EncodeLZSS B True False) = Some B"
  by (rule roundtrip_general) simp

text \<open>
  Claim C3. With plain padding enabled the length of the output is a multiple of 16,
  whatever the exact-padding option; with exact padding enabled the length of the output
  is a multiple of 16, whatever the plain-padding option, and decoding that output gives
  the input back.
\<close>

theorem padded_output_aligned:
  "length (EncodeLZSS B False exactPad) mod 16 = 0
   \<and> length (EncodeLZSS B dontPad True) mod 16 = 0
   \<and> DecodeLZSS (EncodeLZSS B dontPad True) = Some B"
  using EncodeLZSS_aligned [of False exactPad B] EncodeLZSS_aligned [of dontPad True B]
    roundtrip_general [of dontPad True B]
  by simp

text \<open>
  Claim C2, as the code has it. Decoding the output of the encoder gives the input back
  when padding is suppressed or when exact padding is on. With plain padding alone the
  zero bytes that pad the output are read by the decoder as further tokens: the decoded
  output then begins with the input, and may go on after it.
\<close>

theorem padding_keeps_content:
  "(dontPad \<or> exactPad \<longrightarrow> DecodeLZSS (EncodeLZSS B dontPad exactPad) = Some B)
   \<and> (\<exists>out. DecodeLZSS (EncodeLZSS B False False) = Some out \<and> prefix B out)"
  using roundtrip_general [of dontPad exactPad B] plain_padding_prefix [of B] by blast

lemma encode_A_plain:
  "EncodeLZSS [0x41] False False = [0, 0x41, 0, 0, 0, 0, 0, 0, 0, 0, 0, 0, 0, 0, 0, 0]"
  by code_simp

lemma decode_A_plain:
  "DecodeLZSS [0, 0x41, 0, 0, 0, 0, 0, 0, 0, 0, 0, 0, 0, 0, 0, 0]
     = Some [0x41, 0, 0, 0, 0, 0, 0, 0, 0, 0, 0, 0, 0, 0]"
  by code_simp

theorem padding_keeps_content_witness:
  "DecodeLZSS (EncodeLZSS [0x41] False True) = Some [0x41]"
  using padding_keeps_content [of False True "[0x41]"] by simp

text \<open>
  The claim as stated fails for plain padding alone: the one-byte input \<open>A\<close> is encoded
  to 16 bytes that decode to \<open>A\<close> followed by 13 zero bytes.
\<close>

theorem plain_padding_counterexample:
  "DecodeLZSS (EncodeLZSS [0x41] False False) \<noteq> Some [0x41]"
  unfolding encode_A_plain decode_A_plain by simp

section \<open>The tokens in the output of the encoder\<close>

declare frames.simps [simp del]

lemma frames_Nil: "frames [] = []"
  by (subst frames.simps) simp

lemma frames_short:
  "ts \<noteq> [] \<Longrightarrow> length ts \<le> 8 \<Longrightarrow> frames ts = mkFlags 0x80 ts # concat (map wire ts)"
  by (subst frames.simps) (simp add: frames_Nil)

lemma frames_group:
  "length g = 8 \<Longrightarrow> frames (g @ ts) = mkFlags 0x80 g # concat (map wire g) @ frames ts"
  by (subst frames.simps) auto

lemma pushTokens_frames:
  assumes "eflags e = 0" "flagPos e = 0x80" "encodedData e = []"
  shows "\<exists>full pend. ts = full @ pend \<and> length pend < 8
           \<and> (\<forall>rest. frames (full @ rest) = frames full @ frames rest)
           \<and> fold pushToken ts e
               = e\<lparr>eflags := mkFlags 0x80 pend, flagPos := flagBit (length pend),
                    encodedData := concat (map wire pend),
                    compressedSize := compressedSize e + length (frames full),
                    eout := eout e @ frames full\<rparr>"
  using assms
proof (induction ts arbitrary: e rule: length_induct)
  case (1 ts)
  show ?case
  proof (cases "length ts < 8")
    case True
    have fp: "flagPos e = flagBit 0" using "1.prems"(2) by (simp add: flagBit_0)
    have "fold pushToken ts e
             = e\<lparr>eflags := mkFlags 0x80 ts, flagPos := flagBit (length ts),
                  encodedData := concat (map wire ts),
                  compressedSize := compressedSize e + length (frames []),
                  eout := eout e @ frames []\<rparr>"
      using pushTokens_partial [OF fp, of ts] True "1.prems" by (simp add: frames_Nil)
    moreover have "\<forall>rest. frames ([] @ rest) = frames [] @ frames rest"
      by (simp add: frames_Nil)
    moreover have "ts = [] @ ts" by simp
    ultimately show ?thesis using True by (intro exI [of _ "[]"] exI [of _ ts] conjI)
  next
    case False
    define g where "g = take 8 ts"
    define ts' where "ts' = drop 8 ts"
    have ts: "ts = g @ ts'" and lg: "length g = 8" and lt: "length ts' < length ts"
      using False by (simp_all add: g_def ts'_def)
    define G where "G = mkFlags 0x80 g # concat (map wire g)"
    define e1 where "e1 = fold pushToken g e"
    have e1: "e1 = e\<lparr>eflags := 0, flagPos := 0x80, encodedData := [],
                compressedSize := compressedSize e + length G, eout := eout e @ G\<rparr>"
      unfolding e1_def using pushTokens_full [OF "1.prems"(2) lg] "1.prems"(1,3)
      by (simp add: G_def)
    have e1f: "eflags e1 = 0" "flagPos e1 = 0x80" "encodedData e1 = []" by (simp_all add: e1)
    from "1.IH" [rule_format, OF lt e1f]
    obtain full where "\<exists>pend. ts' = full @ pend \<and> length pend < 8
           \<and> (\<forall>rest. frames (full @ rest) = frames full @ frames rest)
           \<and> fold pushToken ts' e1
               = e1\<lparr>eflags := mkFlags 0x80 pend, flagPos := flagBit (length pend),
                    encodedData := concat (map wire pend),
                    compressedSize := compressedSize e1 + length (frames full),
                    eout := eout e1 @ frames full\<rparr>" ..
    then obtain pend where rr: "ts' = full @ pend \<and> length pend < 8
           \<and> (\<forall>rest. frames (full @ rest) = frames full @ frames rest)
           \<and> fold pushToken ts' e1
               = e1\<lparr>eflags := mkFlags 0x80 pend, flagPos := flagBit (length pend),
                    encodedData := concat (map wire pend),
                    compressedSize := compressedSize e1 + length (frames full),
                    eout := eout e1 @ frames full\<rparr>" ..
    note r = rr [THEN conjunct1] rr [THEN conjunct2, THEN conjunct1]
      rr [THEN conjunct2, THEN conjunct2, THEN conjunct1]
      rr [THEN conjunct2, THEN conjunct2, THEN conjunct2]
    have fg: "frames ((g @ full) @ rest) = frames (g @ full) @ frames rest" for rest
      using frames_group [OF lg, of "full @ rest"] frames_group [OF lg, of full]
        r(3) [rule_format, of rest] by simp
    have G: "frames (g @ full) = G @ frames full"
      using frames_group [OF lg, of full] by (simp add: G_def)
    have a: "ts = (g @ full) @ pend" using ts r(1) by simp
    have "fold pushToken ts e = fold pushToken ts' e1" by (simp add: ts e1_def)
    also have "\<dots> = e\<lparr>eflags := mkFlags 0x80 pend, flagPos := flagBit (length pend),
                    encodedData := concat (map wire pend),
                    compressedSize := compressedSize e + length (frames (g @ full)),
                    eout := eout e @ frames (g @ full)\<rparr>"
      unfolding r(4) G by (simp add: e1)
    finally have b: "fold pushToken ts e = e\<lparr>eflags := mkFlags 0x80 pend, flagPos := flagBit (length pend),
                    encodedData := concat (map wire pend),
                    compressedSize := compressedSize e + length (frames (g @ full)),
                    eout := eout e @ frames (g @ full)\<rparr>" .
    have c: "\<forall>rest. frames ((g @ full) @ rest) = frames (g @ full) @ frames rest"
      using fg by blast
    from a r(2) c b show ?thesis by (intro exI [of _ "g @ full"] exI [of _ pend] conjI)
  qed
qed

lemma flush_frames:
  fixes exactPad :: bool
  assumes ll: "length pend < 8"
    and e: "eflags e = mkFlags 0x80 pend" "flagPos e = flagBit (length pend)"
           "encodedData e = concat (map wire pend)"
  defines "s2 \<equiv> (if length (encodedData e) \<noteq> 0 then flushRemaining exactPad e else e)"
  shows "\<exists>m. (\<not> exactPad \<longrightarrow> m = 0)
           \<and> eout s2 = eout e @ frames (pend @ replicate m noop)
           \<and> compressedSize s2 = compressedSize e + length (frames (pend @ replicate m noop))"
proof (cases "pend = []")
  case True
  then have "s2 = e" using e(3) by (simp add: s2_def)
  then show ?thesis using True by (intro exI [of _ 0]) (simp add: frames_Nil)
next
  case False
  define k where "k = length pend"
  have k: "1 \<le> k" "k \<le> 7" using False ll by (simp_all add: k_def Suc_le_eq)
  have ne: "length (encodedData e) \<noteq> 0" using False e(3) wires_empty [of pend] by simp
  define s1 where "s1 = (if exactPad \<and> (compressedSize e + length (encodedData e) + 1) mod 16 \<noteq> 0
                         then exactPadLoop e else e)"
  have fl: "s2 = putBytes (eflags s1 # encodedData s1) s1"
    using ne by (simp add: s2_def flushRemaining_def Let_def s1_def)
  have "\<exists>m. k + m \<le> 8
           \<and> s1 = e\<lparr>eflags := eflags e OR mkFlags (flagPos e) (replicate m noop),
                    flagPos := flagBit (k + m),
                    encodedData := encodedData e @ replicate (2 * m) 0\<rparr>
           \<and> (\<not> exactPad \<longrightarrow> m = 0)"
  proof (cases "exactPad \<and> (compressedSize e + length (encodedData e) + 1) mod 16 \<noteq> 0")
    case True
    have s1e: "s1 = exactPadLoop e" by (simp only: s1_def True if_True simp_thms)
    have "k \<le> 8" using k by simp
    from exactPadLoop_char [OF e(2) [folded k_def] this] obtain m where
      mm: "k + m \<le> 8
           \<and> exactPadLoop e
               = e\<lparr>eflags := eflags e OR mkFlags (flagPos e) (replicate m noop),
                    flagPos := flagBit (k + m),
                    encodedData := encodedData e @ replicate (2 * m) 0\<rparr>
           \<and> ((compressedSize e + length (encodedData e) + 2 * m + 1) mod 16 = 0 \<or> k + m = 8)" ..
    have "\<not> exactPad \<longrightarrow> m = 0" using True by simp
    with mm [THEN conjunct1] mm [THEN conjunct2, THEN conjunct1]
    show ?thesis unfolding s1e by (intro exI [of _ m] conjI)
  next
    case f: False
    have s1e: "s1 = e" by (simp only: s1_def f if_False simp_thms)
    have "k + 0 \<le> 8" using k by simp
    moreover have "e = e\<lparr>eflags := eflags e OR mkFlags (flagPos e) (replicate 0 noop),
                    flagPos := flagBit (k + 0),
                    encodedData := encodedData e @ replicate (2 * 0) 0\<rparr>"
      using e(2) by (simp add: k_def)
    moreover have "\<not> exactPad \<longrightarrow> (0::nat) = 0" by simp
    ultimately show ?thesis unfolding s1e by (intro exI [of _ 0] conjI)
  qed
  then obtain m where mm: "k + m \<le> 8
           \<and> s1 = e\<lparr>eflags := eflags e OR mkFlags (flagPos e) (replicate m noop),
                    flagPos := flagBit (k + m),
                    encodedData := encodedData e @ replicate (2 * m) 0\<rparr>
           \<and> (\<not> exactPad \<longrightarrow> m = 0)" ..
  note m = mm [THEN conjunct1] mm [THEN conjunct2, THEN conjunct1]
    mm [THEN conjunct2, THEN conjunct2]
  define g where "g = pend @ replicate m noop"
  have lg: "length g = k + m" by (simp add: g_def k_def)
  have "drop_bit k (0x80::byte) = flagBit k" by (simp only: flagBit_def)
  then have F: "eflags s1 = mkFlags 0x80 g"
    unfolding g_def mkFlags_append by (simp add: m(2) e(1,2) k_def)
  have W: "encodedData s1 = concat (map wire g)"
    unfolding g_def map_append concat_append padTokens_wire by (simp add: m(2) e(3))
  have gne: "g \<noteq> []" and gle: "length g \<le> 8" using False m(1) lg by (auto simp: g_def)
  have fr: "frames g = mkFlags 0x80 g # concat (map wire g)"
    using gne gle by (rule frames_short)
  have "eout s2 = eout e @ frames g" "compressedSize s2 = compressedSize e + length (frames g)"
    unfolding fl F W fr by (simp_all add: m(2))
  with m(3) show ?thesis unfolding g_def by (intro exI [of _ m] conjI)
qed


lemma EncodeLZSS_frames:
  fixes dontPad exactPad :: bool
  shows "\<exists>m r k. (\<not> exactPad \<longrightarrow> m = 0 \<and> r = 0) \<and> (exactPad \<longrightarrow> k = 0) \<and> r < 16
           \<and> EncodeLZSS B dontPad exactPad
               = frames (encTokens B 0 @ replicate m noop) @ padShape r @ replicate k 0"
proof (cases "B = []")
  case True
  have "encTokens [] 0 = []" by (subst encTokens.simps) simp
  then have "EncodeLZSS B dontPad exactPad
               = frames (encTokens B 0 @ replicate 0 noop) @ padShape 0 @ replicate 0 0"
    using True by (simp add: EncodeLZSS_def frames_Nil padShape_def)
  moreover have "(\<not> exactPad \<longrightarrow> (0::nat) = 0 \<and> (0::nat) = 0) \<and> (exactPad \<longrightarrow> (0::nat) = 0)
                   \<and> (0::nat) < 16" by simp
  ultimately show ?thesis by (intro exI [of _ 0] conjI) simp_all
next
  case False
  define e0 where "e0 = \<lparr>eflags = 0, flagPos = 0x80, encodedData = [], compressedSize = 0,
                          eout = []\<rparr>"
  define ts where "ts = encTokens B 0"
  define e1 where "e1 = fold pushToken ts e0"
  have e0f: "eflags e0 = 0" "flagPos e0 = 0x80" "encodedData e0 = []"
    by (simp_all add: e0_def)
  from pushTokens_frames [OF e0f, of ts]
  obtain full where "\<exists>pend. ts = full @ pend \<and> length pend < 8
           \<and> (\<forall>rest. frames (full @ rest) = frames full @ frames rest)
           \<and> fold pushToken ts e0
               = e0\<lparr>eflags := mkFlags 0x80 pend, flagPos := flagBit (length pend),
                    encodedData := concat (map wire pend),
                    compressedSize := compressedSize e0 + length (frames full),
                    eout := eout e0 @ frames full\<rparr>" ..
  then obtain pend where rr: "ts = full @ pend \<and> length pend < 8
           \<and> (\<forall>rest. frames (full @ rest) = frames full @ frames rest)
           \<and> fold pushToken ts e0
               = e0\<lparr>eflags := mkFlags 0x80 pend, flagPos := flagBit (length pend),
                    encodedData := concat (map wire pend),
                    compressedSize := compressedSize e0 + length (frames full),
                    eout := eout e0 @ frames full\<rparr>" ..
  note r = rr [THEN conjunct1] rr [THEN conjunct2, THEN conjunct1]
    rr [THEN conjunct2, THEN conjunct2, THEN conjunct1]
    rr [THEN conjunct2, THEN conjunct2, THEN conjunct2]
  have e1: "eflags e1 = mkFlags 0x80 pend" "flagPos e1 = flagBit (length pend)"
      "encodedData e1 = concat (map wire pend)" "eout e1 = frames full"
      "compressedSize e1 = length (frames full)"
    unfolding e1_def r(4) by (simp_all add: e0_def)
  define s2 where "s2 = (if length (encodedData e1) \<noteq> 0 then flushRemaining exactPad e1 else e1)"
  from flush_frames [OF r(2) e1(1,2,3), of exactPad, folded s2_def]
  obtain m where mm: "(\<not> exactPad \<longrightarrow> m = 0)
           \<and> eout s2 = eout e1 @ frames (pend @ replicate m noop)
           \<and> compressedSize s2 = compressedSize e1 + length (frames (pend @ replicate m noop))" ..
  note m = mm [THEN conjunct1] mm [THEN conjunct2, THEN conjunct1]
    mm [THEN conjunct2, THEN conjunct2]
  have fr: "frames (ts @ replicate m noop) = frames full @ frames (pend @ replicate m noop)"
    using r(3) [rule_format, of "pend @ replicate m noop"] r(1) by simp
  have o2: "eout s2 = frames (ts @ replicate m noop)"
    unfolding m(2) e1(4) fr ..
  have c2: "compressedSize s2 = length (eout s2)"
    unfolding m(3) m(2) e1(4,5) by simp
  have enc: "EncodeLZSS B dontPad exactPad = eout (finishOutput dontPad exactPad e1)"
    using False
    by (simp add: EncodeLZSS_def Let_def encodeLoop_tokens e0_def [symmetric]
          ts_def [symmetric] e1_def [symmetric])
  show ?thesis
  proof (cases exactPad)
    case True
    define r0 where "r0 = compressedSize s2 mod 16"
    define s3 where "s3 = putBytes (padBytes r0) s2"
    have r16: "r0 < 16" by (simp add: r0_def)
    have "compressedSize s3 mod 16 = 0"
      using padBytes_length [of "compressedSize s2"] by (simp add: s3_def r0_def)
    then have pp: "plainPad s3 = s3" by (rule plainPad_aligned)
    have fin: "finishOutput dontPad exactPad e1 = s3"
      unfolding finishOutput_def Let_def s2_def [symmetric]
      by (simp only: True if_True exactPadBlocks_char r0_def [symmetric] s3_def [symmetric]
            pp if_cancel)
    have "eout s3 = frames (ts @ replicate m noop) @ padShape r0 @ replicate 0 0"
      by (simp add: s3_def o2 padBytes_shape [OF r16])
    then have "EncodeLZSS B dontPad exactPad
                 = frames (encTokens B 0 @ replicate m noop) @ padShape r0 @ replicate 0 0"
      unfolding enc fin ts_def .
    moreover have "(\<not> exactPad \<longrightarrow> m = 0 \<and> r0 = 0) \<and> (exactPad \<longrightarrow> (0::nat) = 0) \<and> r0 < 16"
      using True r16 by simp
    ultimately show ?thesis by (intro exI [of _ m] exI [of _ r0] exI [of _ 0] conjI) simp_all
  next
    case False
    have m0: "m = 0" using m(1) False by simp
    have fin: "finishOutput dontPad exactPad e1 = (if \<not> dontPad then plainPad s2 else s2)"
      unfolding finishOutput_def Let_def s2_def [symmetric]
      by (simp only: False if_False)
    note pc = plainPad_char [OF c2]
    from pc have "\<exists>k. eout (plainPad s2) = eout s2 @ replicate k 0"
      by (rule conjunct2 [THEN conjunct2])
    then obtain k0 where k0: "eout (plainPad s2) = eout s2 @ replicate k0 0" ..
    have "\<exists>k. eout (finishOutput dontPad exactPad e1) = eout s2 @ replicate k 0"
    proof (cases dontPad)
      case True
      then have "eout (finishOutput dontPad exactPad e1) = eout s2 @ replicate 0 0"
        unfolding fin by simp
      then show ?thesis ..
    next
      case f: False
      then have "eout (finishOutput dontPad exactPad e1) = eout s2 @ replicate k0 0"
        unfolding fin using k0 by simp
      then show ?thesis ..
    qed
    then obtain k where "eout (finishOutput dontPad exactPad e1) = eout s2 @ replicate k 0" ..
    then have "EncodeLZSS B dontPad exactPad
                 = frames (encTokens B 0 @ replicate 0 noop) @ padShape 0 @ replicate k 0"
      unfolding enc o2 m0 ts_def by (simp add: padShape_def)
    moreover have "(\<not> exactPad \<longrightarrow> (0::nat) = 0 \<and> (0::nat) = 0) \<and> (exactPad \<longrightarrow> k = 0)
                     \<and> (0::nat) < 16"
      using False by simp
    ultimately show ?thesis by (intro exI [of _ 0] exI [of _ k] conjI) simp_all
  qed
qed

text \<open>
  Claim C4, as the code has it. Every match that the main loop emits, that is every match
  the search finds, has a distance from 3 to 1023, a length from 3 to 63, and a length
  that is at most its distance; the main loop writes exactly the decisions \<open>encTokens\<close>.
  With exact padding off these are all the tokens of the output: the output is their
  framing, followed only by the zero bytes of plain padding. With exact padding on, the
  encoder appends matches of distance 0 and length 0: the output is the framing of
  the decisions of the main loop followed by such zero matches, and then the padding
  blocks, which are flag bytes \<open>0xFF\<close> each followed by zero bytes.
\<close>

theorem emitted_matches_within_limits:
  "encodeLoop inputData 0 s = fold pushToken (encTokens inputData 0) s
   \<and> (\<forall>t \<in> set (encTokens inputData 0). \<forall>distance len. t = Match distance len \<longrightarrow>
         3 \<le> distance \<and> distance \<le> 1023 \<and> 3 \<le> len \<and> len \<le> 63 \<and> len \<le> distance)
   \<and> (\<exists>k. EncodeLZSS inputData dontPad False
              = frames (encTokens inputData 0) @ replicate k 0)
   \<and> (\<exists>m r. r < 16 \<and> EncodeLZSS inputData dontPad True
              = frames (encTokens inputData 0 @ replicate m (Match 0 0)) @ padShape r)"
proof (intro conjI)
  show "encodeLoop inputData 0 s = fold pushToken (encTokens inputData 0) s"
    by (rule encodeLoop_tokens)
next
  show "\<forall>t \<in> set (encTokens inputData 0). \<forall>distance len. t = Match distance len \<longrightarrow>
         3 \<le> distance \<and> distance \<le> 1023 \<and> 3 \<le> len \<and> len \<le> 63 \<and> len \<le> distance"
    using encTokens_range [of _ inputData 0] by blast
next
  from EncodeLZSS_frames [of False inputData dontPad]
  obtain m r k where "(\<not> False \<longrightarrow> m = 0 \<and> r = 0) \<and> (False \<longrightarrow> k = 0) \<and> r < 16
           \<and> EncodeLZSS inputData dontPad False
               = frames (encTokens inputData 0 @ replicate m noop) @ padShape r @ replicate k 0"
    by (elim exE)
  then have "EncodeLZSS inputData dontPad False = frames (encTokens inputData 0) @ replicate k 0"
    by (simp add: padShape_def)
  then show "\<exists>k. EncodeLZSS inputData dontPad False
              = frames (encTokens inputData 0) @ replicate k 0" ..
next
  from EncodeLZSS_frames [of True inputData dontPad]
  obtain m r k where "(\<not> True \<longrightarrow> m = 0 \<and> r = 0) \<and> (True \<longrightarrow> k = 0) \<and> r < 16
           \<and> EncodeLZSS inputData dontPad True
               = frames (encTokens inputData 0 @ replicate m noop) @ padShape r @ replicate k 0"
    by (elim exE)
  then have "r < 16 \<and> EncodeLZSS inputData dontPad True
              = frames (encTokens inputData 0 @ replicate m (Match 0 0)) @ padShape r"
    by (simp add: noop_def)
  then show "\<exists>m r. r < 16 \<and> EncodeLZSS inputData dontPad True
              = frames (encTokens inputData 0 @ replicate m (Match 0 0)) @ padShape r"
    by (intro exI [of _ m] exI [of _ r])
qed

lemma encTokens_abcabc:
  "encTokens [1, 2, 3, 1, 2, 3, 1, 2, 3, 1] 0
     = [Literal 1, Literal 2, Literal 3, Match 3 3, Match 6 4]"
  by code_simp

theorem emitted_matches_within_limits_witness:
  "Match 6 4 \<in> set (encTokens [1, 2, 3, 1, 2, 3, 1, 2, 3, 1] 0)
   \<and> (3::nat) \<le> 6 \<and> (6::nat) \<le> 1023 \<and> (3::nat) \<le> 4 \<and> (4::nat) \<le> 63 \<and> (4::nat) \<le> 6"
proof -
  have m: "Match 6 4 \<in> set (encTokens [1, 2, 3, 1, 2, 3, 1, 2, 3, 1] 0)"
    unfolding encTokens_abcabc by simp
  with emitted_matches_within_limits
         [of "[1, 2, 3, 1, 2, 3, 1, 2, 3, 1]", THEN conjunct2, THEN conjunct1]
  show ?thesis by blast
qed

text \<open>
  The claim as stated fails with exact padding on: for the one-byte input \<open>A\<close> the
  encoder writes the flag byte \<open>0x7F\<close>, the literal, and seven tokens flagged as matches
  whose bytes are zero, that is seven matches of distance 0 and length 0.
\<close>

lemma encode_A_exact:
  "EncodeLZSS [0x41] False True = [0x7F, 0x41, 0, 0, 0, 0, 0, 0, 0, 0, 0, 0, 0, 0, 0, 0]"
  by code_simp

lemma frames_A_exact:
  "frames (Literal 0x41 # replicate 7 (Match 0 0))
     = [0x7F, 0x41, 0, 0, 0, 0, 0, 0, 0, 0, 0, 0, 0, 0, 0, 0]"
  by code_simp

theorem exact_padding_match_counterexample:
  "EncodeLZSS [0x41] False True = frames (Literal 0x41 # replicate 7 (Match 0 0))
   \<and> Match 0 0 \<in> set (Literal 0x41 # replicate 7 (Match 0 0))
   \<and> \<not> (3::nat) \<le> 0"
  unfolding encode_A_exact frames_A_exact by simp

end
